theory Spec2Isabelle
  imports Main "HOL-Library.Word" "HOL-Library.Multiset"
begin

unbundle bit_operations_syntax

section \<open>Squares, pieces, sides and castle masks\<close>

text \<open>
  The board is a 10x12 mailbox of 120 cells. Squares and piece identifiers are unsigned
  machine integers in the source; every value that occurs is below 120 (squares) or below
  16 (pieces), so they are modelled as \<open>nat\<close>. A side is a C++ \<open>bool\<close>:
  \<open>WHITE = false\<close>, \<open>BLACK = true\<close>.
\<close>

type_synonym square_t = nat
type_synonym piece_t = nat
type_synonym castle_t = "4 word"
type_synonym hash_t = "64 word"

definition WHITE :: bool where "WHITE = False"
definition BLACK :: bool where "BLACK = True"

text \<open>
  Modelled from the spec: square.hpp is not part of the sources. The spec fixes
  \<open>A1 = 21\<close>, \<open>H1 = 28\<close>, \<open>A8 = 91\<close>, \<open>H8 = 98\<close>, +10 for one rank up and +1 for one
  file to the right. \<open>INVALID_SQUARE\<close> is a sentinel that is no playing square and still
  indexes the en-passant hash table; its numeric value is not given, 99 is taken here
  and no theorem depends on more than \<open>\<not> valid_square INVALID_SQUARE\<close>.
  \<open>get_square_120_rc\<close> is called once, by the constructor, with an \<open>unsigned\<close> row and
  column, and is the sum \<open>21 + 10 * row + col\<close> in their 32-bit arithmetic.
\<close>

definition INVALID_SQUARE :: square_t where "INVALID_SQUARE = 99"

definition A1 :: square_t where "A1 = 21"
definition B1 :: square_t where "B1 = 22"
definition C1 :: square_t where "C1 = 23"
definition D1 :: square_t where "D1 = 24"
definition E1 :: square_t where "E1 = 25"
definition F1 :: square_t where "F1 = 26"
definition G1 :: square_t where "G1 = 27"
definition H1 :: square_t where "H1 = 28"
definition A8 :: square_t where "A8 = 91"
definition B8 :: square_t where "B8 = 92"
definition C8 :: square_t where "C8 = 93"
definition D8 :: square_t where "D8 = 94"
definition E8 :: square_t where "E8 = 95"
definition F8 :: square_t where "F8 = 96"
definition G8 :: square_t where "G8 = 97"
definition H8 :: square_t where "H8 = 98"

lemmas square_defs = INVALID_SQUARE_def A1_def B1_def C1_def D1_def E1_def F1_def G1_def
  H1_def A8_def B8_def C8_def D8_def E8_def F8_def G8_def H8_def

definition RANK_1 :: nat where "RANK_1 = 0"
definition RANK_2 :: nat where "RANK_2 = 1"
definition RANK_3 :: nat where "RANK_3 = 2"
definition RANK_6 :: nat where "RANK_6 = 5"
definition RANK_7 :: nat where "RANK_7 = 6"
definition RANK_8 :: nat where "RANK_8 = 7"

lemmas rank_defs = RANK_1_def RANK_2_def RANK_3_def RANK_6_def RANK_7_def RANK_8_def

definition valid_square :: "square_t \<Rightarrow> bool" where
  "valid_square sq \<longleftrightarrow> 21 \<le> sq \<and> sq \<le> 98 \<and> 1 \<le> sq mod 10 \<and> sq mod 10 \<le> 8"

definition get_square_row :: "square_t \<Rightarrow> nat" where
  "get_square_row sq = sq div 10 - 2"

definition get_square_120_rc :: "32 word \<Rightarrow> 32 word \<Rightarrow> square_t" where
  "get_square_120_rc row col = unat (21 + 10 * row + col)"

text \<open>
  \<open>square_t cur = sq + offset\<close> with a signed literal offset. From a playing square
  every offset of the source stays inside \<open>0..119\<close>, so no wrap-around occurs.
\<close>

definition sq_add :: "square_t \<Rightarrow> int \<Rightarrow> square_t" where
  "sq_add sq offset = nat (int sq + offset)"

text \<open>
  Modelled from the spec: piece.hpp is not part of the sources. The spec gives 16 piece
  identifiers, the species in the low bits and the colour in bit 3 (white 0, black 1), so
  that \<open>piece ^ 8\<close> flips the side, and \<open>INVALID_PIECE\<close> as the marker of an empty or
  sentinel cell. The numbering of the species inside the low bits is not given; pawn 1,
  knight 2, bishop 3, rook 4, queen 5, king 6 and \<open>INVALID_PIECE = 0\<close> are taken here.
\<close>

definition INVALID_PIECE :: piece_t where "INVALID_PIECE = 0"
definition WHITE_PAWN :: piece_t where "WHITE_PAWN = 1"
definition WHITE_KNIGHT :: piece_t where "WHITE_KNIGHT = 2"
definition WHITE_BISHOP :: piece_t where "WHITE_BISHOP = 3"
definition WHITE_ROOK :: piece_t where "WHITE_ROOK = 4"
definition WHITE_QUEEN :: piece_t where "WHITE_QUEEN = 5"
definition WHITE_KING :: piece_t where "WHITE_KING = 6"
definition BLACK_PAWN :: piece_t where "BLACK_PAWN = 9"
definition BLACK_KNIGHT :: piece_t where "BLACK_KNIGHT = 10"
definition BLACK_BISHOP :: piece_t where "BLACK_BISHOP = 11"
definition BLACK_ROOK :: piece_t where "BLACK_ROOK = 12"
definition BLACK_QUEEN :: piece_t where "BLACK_QUEEN = 13"
definition BLACK_KING :: piece_t where "BLACK_KING = 14"


definition MAX_PIECE_FREQ :: nat where "MAX_PIECE_FREQ = 10"
definition MAX_POSITION_MOVES :: nat where "MAX_POSITION_MOVES = 256"

definition valid_piece :: "piece_t \<Rightarrow> bool" where
  "valid_piece p \<longleftrightarrow> p < 16 \<and> 1 \<le> p mod 8 \<and> p mod 8 \<le> 6"

definition get_side :: "piece_t \<Rightarrow> bool" where
  "get_side p \<longleftrightarrow> p AND 8 \<noteq> 0"

definition is_pawn :: "piece_t \<Rightarrow> bool" where
  "is_pawn p \<longleftrightarrow> p mod 8 = 1"

definition is_king :: "piece_t \<Rightarrow> bool" where
  "is_king p \<longleftrightarrow> p mod 8 = 6"

definition is_diag :: "piece_t \<Rightarrow> bool" where
  "is_diag p \<longleftrightarrow> p mod 8 = 3 \<or> p mod 8 = 5"

definition is_ortho :: "piece_t \<Rightarrow> bool" where
  "is_ortho p \<longleftrightarrow> p mod 8 = 4 \<or> p mod 8 = 5"

text \<open>\<open>is_castle\<close>: the pieces whose departure touches castling, king and rook.\<close>

definition is_castle :: "piece_t \<Rightarrow> bool" where
  "is_castle p \<longleftrightarrow> p mod 8 = 4 \<or> p mod 8 = 6"

definition opposite_colours :: "piece_t \<Rightarrow> piece_t \<Rightarrow> bool" where
  "opposite_colours a b \<longleftrightarrow> get_side a \<noteq> get_side b"

text \<open>The implicit conversion of a C++ \<open>bool\<close> to an integer.\<close>

definition bool_to_int :: "bool \<Rightarrow> nat" where
  "bool_to_int c = (if c then 1 else 0)"

text \<open>
  Modelled from the spec: castle_state.h is not part of the sources. The castle state
  is a 4-bit mask over white-short, white-long, black-short, black-long, in this order
  from bit 0.
\<close>

definition WHITE_SHORT :: castle_t where "WHITE_SHORT = 1"
definition WHITE_LONG :: castle_t where "WHITE_LONG = 2"
definition BLACK_SHORT :: castle_t where "BLACK_SHORT = 4"
definition BLACK_LONG :: castle_t where "BLACK_LONG = 8"

lemmas castle_defs = WHITE_SHORT_def WHITE_LONG_def BLACK_SHORT_def BLACK_LONG_def

section \<open>Moves\<close>

text \<open>
  Modelled from the spec: move.hpp is not part of the sources. A move carries six fields
  and its encoding round-trips, so a move is the record of its fields and the accessors
  are the field selectors. A constructor leaves the fields it does not receive at
  \<open>INVALID_PIECE\<close>; \<open>en_passant_move\<close> records the pawn of the other side as captured,
  which is the piece \<open>unmake_move\<close> puts back from \<open>captured_piece\<close>.
\<close>

datatype MoveFlag = QUIET_MOVE | DOUBLE_PAWN_MOVE | CAPTURE_MOVE | EN_PASSANT_MOVE
  | SHORT_CASTLE_MOVE | LONG_CASTLE_MOVE | PROMOTE_MOVE | PROMOTE_CAPTURE_MOVE

record move_t =
  move_from :: square_t
  move_to :: square_t
  moved_piece :: piece_t
  captured_piece :: piece_t
  promoted_piece :: piece_t
  move_flag :: MoveFlag

definition quiet_move :: "square_t \<Rightarrow> square_t \<Rightarrow> piece_t \<Rightarrow> move_t" where
  "quiet_move from to moved = \<lparr>move_from = from, move_to = to, moved_piece = moved,
     captured_piece = INVALID_PIECE, promoted_piece = INVALID_PIECE, move_flag = QUIET_MOVE\<rparr>"

definition double_move :: "square_t \<Rightarrow> square_t \<Rightarrow> piece_t \<Rightarrow> move_t" where
  "double_move from to moved = \<lparr>move_from = from, move_to = to, moved_piece = moved,
     captured_piece = INVALID_PIECE, promoted_piece = INVALID_PIECE,
     move_flag = DOUBLE_PAWN_MOVE\<rparr>"

definition capture_move :: "square_t \<Rightarrow> square_t \<Rightarrow> piece_t \<Rightarrow> piece_t \<Rightarrow> move_t" where
  "capture_move from to moved captured = \<lparr>move_from = from, move_to = to,
     moved_piece = moved, captured_piece = captured, promoted_piece = INVALID_PIECE,
     move_flag = CAPTURE_MOVE\<rparr>"

definition en_passant_move :: "square_t \<Rightarrow> square_t \<Rightarrow> piece_t \<Rightarrow> move_t" where
  "en_passant_move from to moved = \<lparr>move_from = from, move_to = to, moved_piece = moved,
     captured_piece = moved XOR 8, promoted_piece = INVALID_PIECE,
     move_flag = EN_PASSANT_MOVE\<rparr>"

definition castle_move :: "square_t \<Rightarrow> square_t \<Rightarrow> piece_t \<Rightarrow> MoveFlag \<Rightarrow> move_t" where
  "castle_move from to moved flag = \<lparr>move_from = from, move_to = to, moved_piece = moved,
     captured_piece = INVALID_PIECE, promoted_piece = INVALID_PIECE, move_flag = flag\<rparr>"

definition promote_move :: "square_t \<Rightarrow> square_t \<Rightarrow> piece_t \<Rightarrow> piece_t \<Rightarrow> move_t" where
  "promote_move from to moved promoted = \<lparr>move_from = from, move_to = to,
     moved_piece = moved, captured_piece = INVALID_PIECE, promoted_piece = promoted,
     move_flag = PROMOTE_MOVE\<rparr>"

definition promote_capture_move ::
  "square_t \<Rightarrow> square_t \<Rightarrow> piece_t \<Rightarrow> piece_t \<Rightarrow> piece_t \<Rightarrow> move_t" where
  "promote_capture_move from to moved promoted captured = \<lparr>move_from = from, move_to = to,
     moved_piece = moved, captured_piece = captured, promoted_piece = promoted,
     move_flag = PROMOTE_CAPTURE_MOVE\<rparr>"

lemmas move_ctor_defs = quiet_move_def double_move_def capture_move_def en_passant_move_def
  castle_move_def promote_move_def promote_capture_move_def

definition move_promoted :: "move_t \<Rightarrow> bool" where
  "move_promoted m \<longleftrightarrow> move_flag m = PROMOTE_MOVE \<or> move_flag m = PROMOTE_CAPTURE_MOVE"

definition move_captured :: "move_t \<Rightarrow> bool" where
  "move_captured m \<longleftrightarrow> move_flag m = CAPTURE_MOVE \<or> move_flag m = EN_PASSANT_MOVE
     \<or> move_flag m = PROMOTE_CAPTURE_MOVE"

definition move_castled :: "move_t \<Rightarrow> bool" where
  "move_castled m \<longleftrightarrow> move_flag m = SHORT_CASTLE_MOVE \<or> move_flag m = LONG_CASTLE_MOVE"

section \<open>Hash tables and the board\<close>

text \<open>
  hash.hpp is not part of the sources: the tables of 64-bit constants are a parameter of
  every operation that touches the hash.
\<close>

record hash_tables =
  piece_hash :: "square_t \<Rightarrow> piece_t \<Rightarrow> hash_t"
  castle_hash :: "nat \<Rightarrow> hash_t"
  enpas_hash :: "square_t \<Rightarrow> hash_t"
  side_hash :: hash_t

record history_t =
  h_move :: move_t
  h_castle_state :: castle_t
  h_en_passant :: square_t
  h_fifty_move :: nat
  h_hash :: hash_t

text \<open>
  The members of \<open>Board\<close> that the source file uses. \<open>m_positions\<close> is 16 arrays of
  \<open>MAX_PIECE_FREQ\<close> squares, \<open>m_move_cache\<close> the map from hashes to move lists that
  \<open>pseudo_moves\<close> reads and writes. The clocks are unsigned counters far from their
  width in every position the claims are about and are modelled as \<open>nat\<close>.
\<close>

record board =
  m_pieces :: "piece_t list"
  m_positions :: "square_t list list"
  m_num_pieces :: "nat list"
  m_next_move_colour :: bool
  m_castle_state :: castle_t
  m_en_passant :: square_t
  m_fifty_move :: nat
  m_half_move :: nat
  m_hash :: hash_t
  m_history :: "history_t list"
  m_move_cache :: "hash_t \<rightharpoonup> move_t list"

text \<open>
  An \<open>ASSERT\<close> of the source that fails ends the run in a debug build and is undefined
  behaviour in a release build; either way the operation has no result, which the model
  reports as an error value.
\<close>

datatype error = RemoveInvalidPiece | RemovedPieceNotInList | AddInvalidPiece
  | AddOverwritesPiece | PieceListOverflow | MoveToOccupied | MovedPieceNotInList
  | QueryOwnPiece | InvalidSide | TooManyMoves | UnmakeEmptyHistory | UnmakeFirstMove
  | HashMismatch | InvalidPieceHash | InvalidSquareHash | FenParseError | IndexOutOfRange

definition ebind :: "error + 'a \<Rightarrow> ('a \<Rightarrow> error + 'b) \<Rightarrow> error + 'b" where
  "ebind r f = (case r of Inl e \<Rightarrow> Inl e | Inr x \<Rightarrow> f x)"

lemma ebind_simps [simp]:
  "ebind (Inl e) f = Inl e"
  "ebind (Inr x) f = f x"
  by (simp_all add: ebind_def)

lemma ebind_eq_Inr: "ebind r f = Inr y \<longleftrightarrow> (\<exists>x. r = Inr x \<and> f x = Inr y)"
  by (cases r) simp_all

section \<open>Primitive updates\<close>

text \<open>
  \<open>std::find(piece_list.begin(), last_idx, sq)\<close> as an index: the first position
  below \<open>last_idx\<close> that holds \<open>sq\<close>, and \<open>last_idx\<close> itself when there is none.
\<close>

definition find_idx :: "square_t list \<Rightarrow> nat \<Rightarrow> square_t \<Rightarrow> nat" where
  "find_idx piece_list last_idx sq = length (takeWhile (\<lambda>x. x \<noteq> sq) (take last_idx piece_list))"

definition remove_piece :: "hash_tables \<Rightarrow> board \<Rightarrow> square_t \<Rightarrow> error + board" where
  "remove_piece T b sq =
    (let piece = m_pieces b ! sq in
     if \<not> valid_piece piece then Inl RemoveInvalidPiece
     else
       let piece_list = m_positions b ! piece;
           last_idx = m_num_pieces b ! piece;
           this_idx = find_idx piece_list last_idx sq
       in if this_idx = last_idx then Inl RemovedPieceNotInList
          else Inr (b\<lparr>m_pieces := (m_pieces b)[sq := INVALID_PIECE],
                      m_num_pieces := (m_num_pieces b)[piece := last_idx - 1],
                      m_positions := (m_positions b)[piece :=
                        piece_list[this_idx := piece_list ! (last_idx - 1),
                                   last_idx - 1 := piece_list ! this_idx]],
                      m_hash := m_hash b XOR piece_hash T sq piece\<rparr>))"

text \<open>
  \<open>add_piece\<close> writes \<open>m_positions[piece][m_num_pieces[piece]]\<close> with no check of the
  index; on a full list that is a write past the end of the array, reported here as
  \<open>PieceListOverflow\<close>.
\<close>

definition add_piece :: "hash_tables \<Rightarrow> board \<Rightarrow> square_t \<Rightarrow> piece_t \<Rightarrow> error + board" where
  "add_piece T b sq piece =
    (if \<not> valid_piece piece then Inl AddInvalidPiece
     else if m_pieces b ! sq \<noteq> INVALID_PIECE then Inl AddOverwritesPiece
     else if MAX_PIECE_FREQ \<le> m_num_pieces b ! piece then Inl PieceListOverflow
     else Inr (b\<lparr>m_pieces := (m_pieces b)[sq := piece],
                 m_positions := (m_positions b)[piece :=
                   (m_positions b ! piece)[m_num_pieces b ! piece := sq]],
                 m_num_pieces := (m_num_pieces b)[piece := m_num_pieces b ! piece + 1],
                 m_hash := m_hash b XOR piece_hash T sq piece\<rparr>))"

definition set_castle_state :: "hash_tables \<Rightarrow> board \<Rightarrow> castle_t \<Rightarrow> board" where
  "set_castle_state T b state =
    b\<lparr>m_hash := m_hash b XOR (castle_hash T (unat (m_castle_state b))
                               XOR castle_hash T (unat state)),
      m_castle_state := state\<rparr>"

definition set_en_passant :: "hash_tables \<Rightarrow> board \<Rightarrow> square_t \<Rightarrow> board" where
  "set_en_passant T b sq =
    b\<lparr>m_hash := m_hash b XOR (enpas_hash T (m_en_passant b) XOR enpas_hash T sq),
      m_en_passant := sq\<rparr>"

definition move_piece :: "hash_tables \<Rightarrow> board \<Rightarrow> square_t \<Rightarrow> square_t \<Rightarrow> error + board" where
  "move_piece T b from to =
    (if m_pieces b ! to \<noteq> INVALID_PIECE then Inl MoveToOccupied
     else
       let piece = m_pieces b ! from;
           piece_list = m_positions b ! piece;
           last_idx = m_num_pieces b ! piece;
           this_idx = find_idx piece_list last_idx from
       in if this_idx = last_idx then Inl MovedPieceNotInList
          else Inr (b\<lparr>m_pieces := (m_pieces b)[from := INVALID_PIECE, to := piece],
                      m_positions := (m_positions b)[piece := piece_list[this_idx := to]],
                      m_hash := m_hash b XOR (piece_hash T from piece
                                                XOR piece_hash T to piece)\<rparr>))"

text \<open>
  The four conditional \<open>m_castle_state &= ~...\<close> statements of \<open>update_castling\<close>, in
  the order of the source.
\<close>

definition strip_castling :: "square_t \<Rightarrow> castle_t \<Rightarrow> castle_t" where
  "strip_castling sq c0 =
    (let c1 = (if sq = E1 \<or> sq = A1 then c0 AND NOT WHITE_LONG else c0);
         c2 = (if sq = E1 \<or> sq = H1 then c1 AND NOT WHITE_SHORT else c1);
         c3 = (if sq = E8 \<or> sq = A8 then c2 AND NOT BLACK_LONG else c2);
         c4 = (if sq = E8 \<or> sq = H8 then c3 AND NOT BLACK_SHORT else c3)
     in c4)"

definition update_castling :: "hash_tables \<Rightarrow> board \<Rightarrow> square_t \<Rightarrow> piece_t \<Rightarrow> board" where
  "update_castling T b sq moved =
    (if \<not> is_castle moved then b
     else
       let h1 = m_hash b XOR castle_hash T (unat (m_castle_state b));
           c = strip_castling sq (m_castle_state b)
       in b\<lparr>m_castle_state := c, m_hash := h1 XOR castle_hash T (unat c)\<rparr>)"

definition switch_colours :: "hash_tables \<Rightarrow> board \<Rightarrow> board" where
  "switch_colours T b =
    b\<lparr>m_next_move_colour := \<not> m_next_move_colour b, m_hash := m_hash b XOR side_hash T\<rparr>"

section \<open>Attack detection\<close>

text \<open>
  The ray loop \<open>while (valid_square(cur) && m_pieces[cur] == INVALID_PIECE) cur += offset\<close>.
  The source runs it with non-zero literal offsets only; the test \<open>offset \<noteq> 0\<close> is true at
  every call and makes the recursion total.
\<close>

function walk :: "piece_t list \<Rightarrow> int \<Rightarrow> square_t \<Rightarrow> square_t" where
  "walk ps offset cur =
    (if offset \<noteq> 0 \<and> valid_square cur \<and> ps ! cur = INVALID_PIECE
     then walk ps offset (sq_add cur offset) else cur)"
  by pat_completeness auto
termination
  by (relation "measure (\<lambda>(ps, offset, cur). if 0 < offset then 120 - cur else cur)")
     (auto simp: valid_square_def sq_add_def)

declare walk.simps [simp del]

definition diagonal_offsets :: "int list" where "diagonal_offsets = [-11, -9, 9, 11]"
definition orthogonal_offsets :: "int list" where "orthogonal_offsets = [-10, -1, 1, 10]"
definition knight_offsets :: "int list" where
  "knight_offsets = [-21, -19, -12, -8, 8, 12, 19, 21]"
definition queen_offsets :: "int list" where
  "queen_offsets = [-11, -10, -9, -1, 1, 9, 10, 11]"

definition pawn_attack_offsets :: "bool \<Rightarrow> int list" where
  "pawn_attack_offsets side = [if side = WHITE then -9 else 9, if side = WHITE then -11 else 11]"

text \<open>One pass of a ray loop of \<open>square_attacked\<close>: true when the pass returns true.\<close>

definition ray_attacked ::
  "board \<Rightarrow> square_t \<Rightarrow> bool \<Rightarrow> square_t \<Rightarrow> (piece_t \<Rightarrow> bool) \<Rightarrow> int \<Rightarrow> bool" where
  "ray_attacked b sq side king_square slides offset =
    (let cur_square = sq_add sq offset in
     if king_square = cur_square then True
     else
       let cur_square = walk (m_pieces b) offset cur_square;
           cur_piece = m_pieces b ! cur_square
       in valid_square cur_square \<and> get_side cur_piece = side \<and> slides cur_piece)"

text \<open>The body of \<open>square_attacked\<close> after the guard: rays, knights, pawns.\<close>

definition square_attacked_unguarded :: "board \<Rightarrow> square_t \<Rightarrow> bool \<Rightarrow> bool" where
  "square_attacked_unguarded b sq side =
    (let king_piece = (if side = WHITE then WHITE_KING else BLACK_KING);
         knight_piece = (if side = WHITE then WHITE_KNIGHT else BLACK_KNIGHT);
         pawn_piece = (if side = WHITE then WHITE_PAWN else BLACK_PAWN);
         king_square = m_positions b ! king_piece ! 0
     in if list_ex (ray_attacked b sq side king_square is_diag) diagonal_offsets then True
        else if list_ex (ray_attacked b sq side king_square is_ortho) orthogonal_offsets then True
        else if list_ex (\<lambda>offset. m_pieces b ! sq_add sq offset = knight_piece) knight_offsets
          then True
        else if list_ex (\<lambda>offset. m_pieces b ! sq_add sq offset = pawn_piece)
                  (pawn_attack_offsets side)
          then True
        else False)"

text \<open>
  \<open>square_attacked\<close> as written: the guard \<open>valid_piece(m_pieces[sq]) &&
  get_side(m_pieces[sq] == side)\<close> compares the piece with the side, converts the
  resulting \<open>bool\<close> to a piece identifier and asks for its side.
\<close>

definition square_attacked :: "board \<Rightarrow> square_t \<Rightarrow> bool \<Rightarrow> error + bool" where
  "square_attacked b sq side =
    (if valid_piece (m_pieces b ! sq)
        \<and> get_side (bool_to_int (m_pieces b ! sq = bool_to_int side))
     then (if get_side (m_pieces b ! sq) \<noteq> side then Inr False else Inl QueryOwnPiece)
     else Inr (square_attacked_unguarded b sq side))"

definition king_in_check :: "board \<Rightarrow> error + bool" where
  "king_in_check b =
    (let king_piece = (if m_next_move_colour b = WHITE then WHITE_KING else BLACK_KING)
     in square_attacked b (m_positions b ! king_piece ! 0) (\<not> m_next_move_colour b))"

lemma get_side_bool_to_int: "\<not> get_side (bool_to_int c)"
  by (simp add: get_side_def bool_to_int_def)

lemma square_attacked_Inr:
  "square_attacked b sq side = Inr (square_attacked_unguarded b sq side)"
  by (simp add: square_attacked_def get_side_bool_to_int)

section \<open>Pseudo-move generation\<close>

text \<open>
  The loop \<open>for (idx = 0; idx < m_num_pieces[piece]; ++idx)\<close> over
  \<open>m_positions[piece][idx]\<close> visits these squares, in this order.
\<close>

definition piece_squares :: "board \<Rightarrow> piece_t \<Rightarrow> square_t list" where
  "piece_squares b piece = take (m_num_pieces b ! piece) (m_positions b ! piece)"

text \<open>
  The slider loop from \<open>cur\<close> on: a quiet move for every empty square passed, then a
  capture when the walk stops on a piece of the other side that is no king.
\<close>

function slide_moves ::
  "piece_t list \<Rightarrow> square_t \<Rightarrow> piece_t \<Rightarrow> int \<Rightarrow> square_t \<Rightarrow> move_t list" where
  "slide_moves ps start piece offset cur =
    (if offset \<noteq> 0 \<and> valid_square cur \<and> ps ! cur = INVALID_PIECE
     then quiet_move start cur piece # slide_moves ps start piece offset (sq_add cur offset)
     else if valid_square cur \<and> opposite_colours piece (ps ! cur) \<and> \<not> is_king (ps ! cur)
       then [capture_move start cur piece (ps ! cur)]
       else [])"
  by pat_completeness auto
termination
  by (relation "measure (\<lambda>(ps, start, piece, offset, cur). if 0 < offset then 120 - cur else cur)")
     (auto simp: valid_square_def sq_add_def)

declare slide_moves.simps [simp del]

definition slider_moves :: "board \<Rightarrow> piece_t \<Rightarrow> int list \<Rightarrow> move_t list" where
  "slider_moves b piece offsets =
    concat (map (\<lambda>start.
      concat (map (\<lambda>offset. slide_moves (m_pieces b) start piece offset (sq_add start offset))
        offsets))
      (piece_squares b piece))"

definition step_moves :: "board \<Rightarrow> square_t \<Rightarrow> piece_t \<Rightarrow> int \<Rightarrow> move_t list" where
  "step_moves b start piece offset =
    (let cur_square = sq_add start offset in
     if valid_square cur_square \<and> m_pieces b ! cur_square = INVALID_PIECE
     then [quiet_move start cur_square piece]
     else if valid_square cur_square \<and> opposite_colours piece (m_pieces b ! cur_square)
             \<and> \<not> is_king (m_pieces b ! cur_square)
       then [capture_move start cur_square piece (m_pieces b ! cur_square)]
       else [])"

definition knight_moves :: "board \<Rightarrow> piece_t \<Rightarrow> move_t list" where
  "knight_moves b knight_piece =
    concat (map (\<lambda>start. concat (map (step_moves b start knight_piece) knight_offsets))
      (piece_squares b knight_piece))"

definition pawn_capture_moves ::
  "board \<Rightarrow> square_t \<Rightarrow> piece_t \<Rightarrow> piece_t list \<Rightarrow> square_t \<Rightarrow> move_t list" where
  "pawn_capture_moves b start pawn_piece promote_pieces capture =
    (if valid_square capture \<and> m_pieces b ! capture \<noteq> INVALID_PIECE
        \<and> opposite_colours pawn_piece (m_pieces b ! capture)
        \<and> \<not> is_king (m_pieces b ! capture)
     then (if get_square_row capture = RANK_1 \<or> get_square_row capture = RANK_8
           then map (\<lambda>promote_piece.
                  promote_capture_move start capture pawn_piece promote_piece
                    (m_pieces b ! capture)) promote_pieces
           else [capture_move start capture pawn_piece (m_pieces b ! capture)])
     else [])"

definition pawn_moves ::
  "board \<Rightarrow> bool \<Rightarrow> piece_t \<Rightarrow> piece_t list \<Rightarrow> square_t \<Rightarrow> move_t list" where
  "pawn_moves b side pawn_piece promote_pieces start =
    (let offset = (if side = WHITE then 10 else -10);
         cur_square = sq_add start offset;
         capture1 = cur_square - 1;
         capture2 = cur_square + 1
     in
       (if side = WHITE \<and> get_square_row start = RANK_2
           \<and> m_pieces b ! (start + 10) = INVALID_PIECE
           \<and> m_pieces b ! (start + 20) = INVALID_PIECE
        then [double_move start (start + 20) pawn_piece] else [])
     @ (if side = BLACK \<and> get_square_row start = RANK_7
           \<and> m_pieces b ! (start - 10) = INVALID_PIECE
           \<and> m_pieces b ! (start - 20) = INVALID_PIECE
        then [double_move start (start - 20) pawn_piece] else [])
     @ (if valid_square cur_square \<and> m_pieces b ! cur_square = INVALID_PIECE
        then (if get_square_row cur_square = RANK_1 \<or> get_square_row cur_square = RANK_8
              then map (promote_move start cur_square pawn_piece) promote_pieces
              else [quiet_move start (sq_add start offset) pawn_piece])
        else [])
     @ pawn_capture_moves b start pawn_piece promote_pieces capture1
     @ pawn_capture_moves b start pawn_piece promote_pieces capture2
     @ (if m_en_passant b \<noteq> INVALID_SQUARE
        then (if capture1 = m_en_passant b \<and> m_pieces b ! capture1 = INVALID_PIECE
              then [en_passant_move start (m_en_passant b) pawn_piece] else [])
           @ (if capture2 = m_en_passant b \<and> m_pieces b ! capture2 = INVALID_PIECE
              then [en_passant_move start (m_en_passant b) pawn_piece] else [])
        else []))"

definition king_step_moves :: "board \<Rightarrow> square_t \<Rightarrow> piece_t \<Rightarrow> int \<Rightarrow> move_t list" where
  "king_step_moves b start king_piece offset =
    (let cur_square = sq_add start offset;
         piece = m_pieces b ! cur_square
     in if valid_square cur_square
        then (if piece = INVALID_PIECE then [quiet_move start cur_square king_piece]
              else if opposite_colours king_piece piece \<and> \<not> is_king piece
                then [capture_move start cur_square king_piece piece]
                else [])
        else [])"

definition castling_moves :: "board \<Rightarrow> bool \<Rightarrow> error + move_t list" where
  "castling_moves b side =
    (if side = WHITE then
       ebind (square_attacked b D1 BLACK) (\<lambda>d1_attacked.
       ebind (square_attacked b E1 BLACK) (\<lambda>e1_attacked.
       ebind (square_attacked b F1 BLACK) (\<lambda>f1_attacked.
         Inr ((if m_castle_state b AND WHITE_SHORT \<noteq> 0 \<and> \<not> e1_attacked \<and> \<not> f1_attacked
                  \<and> m_pieces b ! F1 = INVALID_PIECE \<and> m_pieces b ! G1 = INVALID_PIECE
               then [castle_move E1 G1 WHITE_KING SHORT_CASTLE_MOVE] else [])
            @ (if m_castle_state b AND WHITE_LONG \<noteq> 0 \<and> \<not> e1_attacked \<and> \<not> d1_attacked
                  \<and> m_pieces b ! D1 = INVALID_PIECE \<and> m_pieces b ! C1 = INVALID_PIECE
                  \<and> m_pieces b ! B1 = INVALID_PIECE
               then [castle_move E1 C1 WHITE_KING LONG_CASTLE_MOVE] else [])))))
     else
       ebind (square_attacked b D8 WHITE) (\<lambda>d8_attacked.
       ebind (square_attacked b E8 WHITE) (\<lambda>e8_attacked.
       ebind (square_attacked b F8 WHITE) (\<lambda>f8_attacked.
         Inr ((if m_castle_state b AND BLACK_SHORT \<noteq> 0 \<and> \<not> e8_attacked \<and> \<not> f8_attacked
                  \<and> m_pieces b ! F8 = INVALID_PIECE \<and> m_pieces b ! G8 = INVALID_PIECE
               then [castle_move E8 G8 BLACK_KING SHORT_CASTLE_MOVE] else [])
            @ (if m_castle_state b AND BLACK_LONG \<noteq> 0 \<and> \<not> e8_attacked \<and> \<not> d8_attacked
                  \<and> m_pieces b ! D8 = INVALID_PIECE \<and> m_pieces b ! C8 = INVALID_PIECE
                  \<and> m_pieces b ! B8 = INVALID_PIECE
               then [castle_move E8 C8 BLACK_KING LONG_CASTLE_MOVE] else []))))))"

text \<open>
  The generation proper, lines 381 to 563 of the source: queens, rooks, bishops, knights,
  pawns, king and castling, appended in this order.
\<close>

definition generate_moves :: "board \<Rightarrow> bool \<Rightarrow> error + move_t list" where
  "generate_moves b side =
    (let king_piece = (if side = WHITE then WHITE_KING else BLACK_KING);
         queen_piece = (if side = WHITE then WHITE_QUEEN else BLACK_QUEEN);
         rook_piece = (if side = WHITE then WHITE_ROOK else BLACK_ROOK);
         bishop_piece = (if side = WHITE then WHITE_BISHOP else BLACK_BISHOP);
         knight_piece = (if side = WHITE then WHITE_KNIGHT else BLACK_KNIGHT);
         pawn_piece = (if side = WHITE then WHITE_PAWN else BLACK_PAWN);
         promote_pieces = [queen_piece XOR 8, rook_piece XOR 8, bishop_piece XOR 8,
                           knight_piece XOR 8];
         start = m_positions b ! king_piece ! 0
     in ebind (castling_moves b side) (\<lambda>castles.
          Inr (slider_moves b queen_piece queen_offsets
             @ slider_moves b rook_piece orthogonal_offsets
             @ slider_moves b bishop_piece diagonal_offsets
             @ knight_moves b knight_piece
             @ concat (map (pawn_moves b side pawn_piece promote_pieces)
                         (piece_squares b pawn_piece))
             @ concat (map (king_step_moves b start king_piece) queen_offsets)
             @ castles)))"

text \<open>
  \<open>pseudo_moves\<close>: the cache is asked first; the draw cut-off returns the empty list
  without storing it; otherwise the generated list is stored under the current hash and
  returned. The argument \<open>side_arg\<close> is the source's \<open>_side\<close>, \<open>None\<close> for its default
  \<open>INVALID_SIDE\<close>.
\<close>

definition pseudo_moves :: "board \<Rightarrow> bool option \<Rightarrow> error + (move_t list \<times> board)" where
  "pseudo_moves b side_arg =
    (case m_move_cache b (m_hash b) of
       Some cached \<Rightarrow> Inr (cached, b)
     | None \<Rightarrow>
         if m_half_move b > 1000 \<or> m_fifty_move b > 75 then Inr ([], b)
         else
           let side = (case side_arg of Some s \<Rightarrow> s | None \<Rightarrow> m_next_move_colour b)
           in ebind (generate_moves b side) (\<lambda>result.
                if \<not> length result \<le> MAX_POSITION_MOVES then Inl TooManyMoves
                else Inr (result, b\<lparr>m_move_cache := (m_move_cache b)(m_hash b \<mapsto> result)\<rparr>)))"

section \<open>Make and unmake\<close>

text \<open>
  The branch of \<open>make_move\<close> that moves the pieces (its \<open>if (move_promoted(move)) ...
  else if (move_castled(move)) ... else ...\<close>), on the board that already holds the new
  history entry.
\<close>

definition apply_move :: "hash_tables \<Rightarrow> board \<Rightarrow> move_t \<Rightarrow> bool \<Rightarrow> error + board" where
  "apply_move T b move cur_side =
    (let flag = move_flag move; from = move_from move; to = move_to move;
         moved = moved_piece move
     in
     if move_promoted move then
       ebind (if move_captured move then remove_piece T b to else Inr b) (\<lambda>b.
       ebind (add_piece T b to (promoted_piece move)) (\<lambda>b.
       ebind (remove_piece T b from) (\<lambda>b.
         Inr (set_en_passant T b INVALID_SQUARE))))
     else if move_castled move then
       ebind
         (if cur_side = WHITE then
            ebind (if flag = SHORT_CASTLE_MOVE
                   then ebind (move_piece T b E1 G1) (\<lambda>b. move_piece T b H1 F1)
                   else ebind (move_piece T b E1 C1) (\<lambda>b. move_piece T b A1 D1)) (\<lambda>b.
              Inr (set_castle_state T b
                     (m_castle_state b AND NOT (WHITE_LONG OR WHITE_SHORT))))
          else
            ebind (if flag = SHORT_CASTLE_MOVE
                   then ebind (move_piece T b E8 G8) (\<lambda>b. move_piece T b H8 F8)
                   else ebind (move_piece T b E8 C8) (\<lambda>b. move_piece T b A8 D8)) (\<lambda>b.
              Inr (set_castle_state T b
                     (m_castle_state b AND NOT (BLACK_LONG OR BLACK_SHORT)))))
         (\<lambda>b. Inr (set_en_passant T b INVALID_SQUARE))
     else
       let enpas_square = (if cur_side = WHITE then to - 10 else to + 10);
           b = (if flag = DOUBLE_PAWN_MOVE then set_en_passant T b enpas_square
                else set_en_passant T b INVALID_SQUARE)
       in if flag = QUIET_MOVE then
            ebind (move_piece T b from to) (\<lambda>b. Inr (update_castling T b from moved))
          else if flag = DOUBLE_PAWN_MOVE then move_piece T b from to
          else if flag = CAPTURE_MOVE then
            ebind (remove_piece T b to) (\<lambda>b.
            ebind (move_piece T b from to) (\<lambda>b. Inr (update_castling T b from moved)))
          else if flag = EN_PASSANT_MOVE then
            ebind (remove_piece T b enpas_square) (\<lambda>b. move_piece T b from to)
          else Inr b)"

definition make_move :: "hash_tables \<Rightarrow> board \<Rightarrow> move_t \<Rightarrow> error + (bool \<times> board)" where
  "make_move T b move =
    (let cur_side = m_next_move_colour b; other_side = \<not> cur_side;
         entry = \<lparr>h_move = move, h_castle_state = m_castle_state b,
                  h_en_passant = m_en_passant b, h_fifty_move = m_fifty_move b,
                  h_hash = m_hash b\<rparr>;
         b = b\<lparr>m_history := m_history b @ [entry], m_half_move := m_half_move b + 1\<rparr>
     in ebind (apply_move T b move cur_side) (\<lambda>b.
          let b = b\<lparr>m_fifty_move :=
                    (if move_captured move \<or> is_pawn (moved_piece move) then 0
                     else m_fifty_move b + 1)\<rparr>;
              b = switch_colours T b;
              king_piece = (if cur_side = WHITE then WHITE_KING else BLACK_KING)
          in ebind (square_attacked b (m_positions b ! king_piece ! 0) other_side)
               (\<lambda>attacked. Inr (\<not> attacked, b))))"

text \<open>
  The branch of \<open>unmake_move\<close> that moves the pieces back, after castle state,
  en-passant target, clocks and side have been restored.
\<close>

definition undo_move :: "hash_tables \<Rightarrow> board \<Rightarrow> move_t \<Rightarrow> bool \<Rightarrow> error + board" where
  "undo_move T b move cur_side =
    (let flag = move_flag move; from = move_from move; to = move_to move in
     if move_promoted move then
       ebind (remove_piece T b to) (\<lambda>b.
       ebind (add_piece T b from (moved_piece move)) (\<lambda>b.
         if move_captured move then add_piece T b to (captured_piece move) else Inr b))
     else if move_castled move then
       (if cur_side = WHITE then
          (if flag = SHORT_CASTLE_MOVE
           then ebind (move_piece T b G1 E1) (\<lambda>b. move_piece T b F1 H1)
           else ebind (move_piece T b C1 E1) (\<lambda>b. move_piece T b D1 A1))
        else
          (if flag = SHORT_CASTLE_MOVE
           then ebind (move_piece T b G8 E8) (\<lambda>b. move_piece T b F8 H8)
           else ebind (move_piece T b C8 E8) (\<lambda>b. move_piece T b D8 A8)))
     else
       ebind (move_piece T b to from) (\<lambda>b.
         if move_captured move then
           let en_pas_sq = (if cur_side = WHITE then m_en_passant b - 10
                            else m_en_passant b + 10);
               captured_sq = (if flag = CAPTURE_MOVE then to else en_pas_sq)
           in add_piece T b captured_sq (captured_piece move)
         else Inr b))"

definition unmake_move :: "hash_tables \<Rightarrow> board \<Rightarrow> error + board" where
  "unmake_move T b =
    (if m_history b = [] then Inl UnmakeEmptyHistory
     else
       let entry = last (m_history b);
           b = b\<lparr>m_history := butlast (m_history b)\<rparr>;
           move = h_move entry;
           last_hash = h_hash entry;
           b = set_castle_state T b (h_castle_state entry);
           b = set_en_passant T b (h_en_passant entry);
           b = b\<lparr>m_fifty_move := h_fifty_move entry\<rparr>
       in if \<not> m_half_move b > 0 then Inl UnmakeFirstMove
          else
            let b = b\<lparr>m_half_move := m_half_move b - 1\<rparr>;
                b = switch_colours T b;
                cur_side = m_next_move_colour b
            in ebind (undo_move T b move cur_side) (\<lambda>b.
                 if m_hash b \<noteq> last_hash then Inl HashMismatch else Inr b))"

section \<open>Full hash recomputation\<close>

text \<open>
  The loop of \<open>compute_hash\<close> over the squares still to visit, with its two assertions
  on every cell.
\<close>

fun hash_squares :: "hash_tables \<Rightarrow> piece_t list \<Rightarrow> square_t list \<Rightarrow> hash_t \<Rightarrow> error + hash_t" where
  "hash_squares T ps [] res = Inr res"
| "hash_squares T ps (sq # sqs) res =
    (let piece = ps ! sq in
     if \<not> piece < 16 then Inl InvalidPieceHash
     else if \<not> (valid_piece piece \<or> piece_hash T sq piece = 0) then Inl InvalidPieceHash
     else hash_squares T ps sqs (res XOR piece_hash T sq piece))"

definition compute_hash :: "hash_tables \<Rightarrow> board \<Rightarrow> error + hash_t" where
  "compute_hash T b =
    ebind (hash_squares T (m_pieces b) [0..<120] 0) (\<lambda>res.
      let res = res XOR castle_hash T (unat (m_castle_state b)) in
      if enpas_hash T INVALID_SQUARE \<noteq> 0 then Inl InvalidSquareHash
      else
        let res = res XOR enpas_hash T (m_en_passant b);
            res = res XOR (if m_next_move_colour b then side_hash T else 0)
        in Inr res)"

section \<open>FEN codec\<close>

text \<open>
  Modelled from the spec: \<open>piece_from_char\<close>, \<open>char_from_piece\<close> (piece.hpp) and
  \<open>string_from_square\<close> (square.hpp) are not part of the sources. They are the species
  letters of FEN, upper case for white, and the algebraic name of a square, \<open>-\<close> for
  \<open>INVALID_SQUARE\<close>.
\<close>

definition piece_from_char :: "char \<Rightarrow> piece_t" where
  "piece_from_char chr =
    (if chr = CHR ''P'' then WHITE_PAWN else if chr = CHR ''N'' then WHITE_KNIGHT
     else if chr = CHR ''B'' then WHITE_BISHOP else if chr = CHR ''R'' then WHITE_ROOK
     else if chr = CHR ''Q'' then WHITE_QUEEN else if chr = CHR ''K'' then WHITE_KING
     else if chr = CHR ''p'' then BLACK_PAWN else if chr = CHR ''n'' then BLACK_KNIGHT
     else if chr = CHR ''b'' then BLACK_BISHOP else if chr = CHR ''r'' then BLACK_ROOK
     else if chr = CHR ''q'' then BLACK_QUEEN else if chr = CHR ''k'' then BLACK_KING
     else INVALID_PIECE)"

definition char_from_piece :: "piece_t \<Rightarrow> char" where
  "char_from_piece piece =
    (if piece = WHITE_PAWN then CHR ''P'' else if piece = WHITE_KNIGHT then CHR ''N''
     else if piece = WHITE_BISHOP then CHR ''B'' else if piece = WHITE_ROOK then CHR ''R''
     else if piece = WHITE_QUEEN then CHR ''Q'' else if piece = WHITE_KING then CHR ''K''
     else if piece = BLACK_PAWN then CHR ''p'' else if piece = BLACK_KNIGHT then CHR ''n''
     else if piece = BLACK_BISHOP then CHR ''b'' else if piece = BLACK_ROOK then CHR ''r''
     else if piece = BLACK_QUEEN then CHR ''q'' else if piece = BLACK_KING then CHR ''k''
     else CHR '' '')"

definition string_from_square :: "square_t \<Rightarrow> string" where
  "string_from_square sq =
    (if sq = INVALID_SQUARE then ''-''
     else [char_of (97 + (sq mod 10 - 1)), char_of (49 + get_square_row sq)])"

text \<open>The decimal digits that \<open>operator<<\<close> writes for an unsigned integer.\<close>

fun digits_of :: "nat \<Rightarrow> string" where
  "digits_of n = (if n < 10 then [char_of (48 + n)]
                  else digits_of (n div 10) @ [char_of (48 + n mod 10)])"

declare digits_of.simps [simp del]

text \<open>
  Part 1 of the constructor, from the character \<open>next_chr\<close> points at. The string ends
  with the terminator of \<open>std::string\<close>, which is no piece letter: running into it fails
  the assertion on the piece. The result is what is left of the string, at the space,
  and the square index reached.
\<close>

fun parse_board :: "string \<Rightarrow> nat \<Rightarrow> board \<Rightarrow> error + (string \<times> nat \<times> board)" where
  "parse_board [] square_idx b = Inl FenParseError"
| "parse_board (chr # rest) square_idx b =
    (if chr = CHR '' '' then Inr (chr # rest, square_idx, b)
     else if chr = CHR ''/'' then
       (if square_idx mod 10 \<noteq> 9 then Inl FenParseError
        else parse_board rest (square_idx - 18) b)
     else if (49::nat) \<le> of_char chr \<and> of_char chr \<le> (56::nat) then
       (let num_spaces = of_char chr - (48::nat);
            b = b\<lparr>m_pieces := fold (\<lambda>i ps. ps[square_idx + i := INVALID_PIECE])
                                  [0..<num_spaces] (m_pieces b)\<rparr>;
            square_idx = square_idx + num_spaces
        in if \<not> (square_idx mod 10 = 9 \<or> valid_square square_idx) then Inl FenParseError
           else parse_board rest square_idx b)
     else
       (let piece_idx = piece_from_char chr in
        if \<not> valid_square square_idx then Inl FenParseError
        else if \<not> valid_piece piece_idx then Inl FenParseError
        else if \<not> m_num_pieces b ! piece_idx < MAX_PIECE_FREQ then Inl FenParseError
        else
          let b = b\<lparr>m_pieces := (m_pieces b)[square_idx := piece_idx],
                     m_positions := (m_positions b)[piece_idx :=
                       (m_positions b ! piece_idx)[m_num_pieces b ! piece_idx := square_idx]],
                     m_num_pieces := (m_num_pieces b)[piece_idx :=
                       m_num_pieces b ! piece_idx + 1]\<rparr>;
              square_idx = square_idx + 1
          in if \<not> (square_idx mod 10 = 9 \<or> valid_square square_idx) then Inl FenParseError
             else parse_board rest square_idx b))"

text \<open>Part 3: the castling letters up to the next space.\<close>

fun parse_castle :: "string \<Rightarrow> castle_t \<Rightarrow> error + (string \<times> castle_t)" where
  "parse_castle [] c = Inl FenParseError"
| "parse_castle (chr # rest) c =
    (if chr = CHR '' '' then Inr (chr # rest, c)
     else if chr = CHR ''K'' then parse_castle rest (c OR WHITE_SHORT)
     else if chr = CHR ''Q'' then parse_castle rest (c OR WHITE_LONG)
     else if chr = CHR ''k'' then parse_castle rest (c OR BLACK_SHORT)
     else if chr = CHR ''q'' then parse_castle rest (c OR BLACK_LONG)
     else Inl FenParseError)"

text \<open>
  Part 5: the digits of the half-move clock up to the next space, accumulated in an
  \<open>unsigned int\<close>.
\<close>

fun parse_fifty :: "string \<Rightarrow> 32 word \<Rightarrow> error + (string \<times> 32 word)" where
  "parse_fifty [] n = Inl FenParseError"
| "parse_fifty (chr # rest) n =
    (if chr = CHR '' '' then Inr (chr # rest, n)
     else if \<not> ((48::nat) \<le> of_char chr \<and> of_char chr \<le> (57::nat)) then Inl FenParseError
     else parse_fifty rest (10 * n + (of_char chr - 48)))"

text \<open>Part 6: the digits of the full-move number up to the end, in a \<open>size_t\<close>.\<close>

fun parse_full :: "string \<Rightarrow> 64 word \<Rightarrow> error + 64 word" where
  "parse_full [] n = Inr n"
| "parse_full (chr # rest) n =
    (if \<not> ((48::nat) \<le> of_char chr \<and> of_char chr \<le> (57::nat)) then Inl FenParseError
     else parse_full rest (10 * n + (of_char chr - 48)))"

definition empty_board :: board where
  "empty_board = \<lparr>m_pieces = replicate 120 INVALID_PIECE,
     m_positions = replicate 16 (replicate MAX_PIECE_FREQ INVALID_SQUARE),
     m_num_pieces = replicate 16 0, m_next_move_colour = WHITE, m_castle_state = 0,
     m_en_passant = INVALID_SQUARE, m_fifty_move = 0, m_half_move = 0, m_hash = 0,
     m_history = [], m_move_cache = Map.empty\<rparr>"

text \<open>
  Part 4: the en-passant field. \<open>row\<close> and \<open>col\<close> are \<open>unsigned\<close>: each character is
  promoted to \<open>int\<close> (\<open>char\<close> is signed on the x86-64 targets of the engine) and the
  difference is converted modulo \<open>2^32\<close>, which \<open>char_value\<close> and the subtraction of
  32-bit words give; a character below \<open>a\<close> wraps the column and the constructor goes on.
  The row is pinned by the two assertions; the column is not checked. A read of
  \<open>m_pieces\<close> outside its 120 cells has no defined result and is reported as
  \<open>IndexOutOfRange\<close>; as in the source, the cell to the right is read only when the cell
  to the left does not hold the pawn. The result is the rest of the string after the
  field.
\<close>

definition char_value :: "char \<Rightarrow> 32 word" where
  "char_value c = (if of_char c < (128::nat) then of_char c else of_char c - 256)"

definition parse_en_passant :: "string \<Rightarrow> board \<Rightarrow> error + (string \<times> board)" where
  "parse_en_passant s b =
    (case s of
       [] \<Rightarrow> Inl FenParseError
     | c0 # rest0 \<Rightarrow>
         if c0 = CHR ''-'' then Inr (rest0, b\<lparr>m_en_passant := INVALID_SQUARE\<rparr>)
         else
           (case rest0 of
              [] \<Rightarrow> Inl FenParseError
            | c1 # rest1 \<Rightarrow>
                let row = char_value c1 - char_value CHR ''1'';
                    col = char_value c0 - char_value CHR ''a'' in
                if m_next_move_colour b = WHITE \<and> row \<noteq> of_nat RANK_6 then Inl FenParseError
                else if m_next_move_colour b = BLACK \<and> row \<noteq> of_nat RANK_3
                  then Inl FenParseError
                else
                  let en_passant = get_square_120_rc row col;
                      my_pawn = (if m_next_move_colour b = WHITE then WHITE_PAWN
                                 else BLACK_PAWN)
                  in if en_passant = 0 \<or> \<not> en_passant - 1 < 120 then Inl IndexOutOfRange
                     else if m_pieces b ! (en_passant - 1) \<noteq> my_pawn then
                       (if \<not> en_passant + 1 < 120 then Inl IndexOutOfRange
                        else if m_pieces b ! (en_passant + 1) \<noteq> my_pawn
                          then Inr (rest1, b\<lparr>m_en_passant := INVALID_SQUARE\<rparr>)
                          else Inr (rest1, b\<lparr>m_en_passant := en_passant\<rparr>))
                     else Inr (rest1, b\<lparr>m_en_passant := en_passant\<rparr>)))"

text \<open>
  The constructor \<open>Board::Board(fen)\<close>. Between the parts the source steps over one
  character and asserts afterwards that the field ended at a space; after the side it
  steps over two characters without looking at the second.
\<close>

definition parse_fen :: "hash_tables \<Rightarrow> string \<Rightarrow> error + board" where
  "parse_fen T fen =
    ebind (parse_board fen A8 empty_board) (\<lambda>(s, square_idx, b).
      if square_idx \<noteq> 29 then Inl FenParseError
      else
        (case tl s of
           [] \<Rightarrow> Inl FenParseError
         | side_chr # s \<Rightarrow>
             if \<not> (side_chr = CHR ''w'' \<or> side_chr = CHR ''b'') then Inl FenParseError
             else
               let b = b\<lparr>m_next_move_colour := (if side_chr = CHR ''w'' then WHITE else BLACK)\<rparr>
               in (case s of
                     [] \<Rightarrow> Inl FenParseError
                   | _ # s \<Rightarrow>
                       ebind (case s of
                                [] \<Rightarrow> Inl FenParseError
                              | c # rest \<Rightarrow> if c = CHR ''-'' then Inr (rest, 0)
                                            else parse_castle s 0) (\<lambda>(s, castle).
                         if \<not> (s \<noteq> [] \<and> hd s = CHR '' '') then Inl FenParseError
                         else
                           ebind (parse_en_passant (tl s) (b\<lparr>m_castle_state := castle\<rparr>))
                             (\<lambda>(s, b).
                               if \<not> (s \<noteq> [] \<and> hd s = CHR '' '') then Inl FenParseError
                               else
                                 ebind (parse_fifty (tl s) 0) (\<lambda>(s, fifty).
                                 ebind (parse_full (tl s) 0) (\<lambda>full_move.
                                   let b = b\<lparr>m_fifty_move := unat fifty,
                                              m_half_move := unat (2 * full_move
                                                + (if m_next_move_colour b then 1 else 0))\<rparr>
                                   in ebind (compute_hash T b) (\<lambda>h.
                                        Inr (b\<lparr>m_hash := h\<rparr>)))))))))"

text \<open>
  Part 1 of \<open>fen()\<close>. \<open>fen_row_break\<close> is the block run when the index stands at the
  end of a rank, \<open>fen_cell\<close> the handling of one cell, \<open>fen_board\<close> the loop from
  \<open>square_idx\<close> on. The walk that starts at \<open>A8\<close> stays inside the array; an index
  outside it is reported as an error, as is the failed assertion on the blank count.
  \<open>fen_measure\<close> decreases with every pass of the loop.
\<close>

definition fen_measure :: "nat \<Rightarrow> nat" where
  "fen_measure sq = 10 * (sq div 10) + (9 - sq mod 10)"

lemma fen_measure_row:
  assumes "sq mod 10 = 9" and "\<not> sq < 18"
  shows "fen_measure (Suc (sq - 18)) < fen_measure sq"
proof -
  have sq: "sq = 10 * (sq div 10) + 9"
    using assms(1) mult_div_mod_eq [of 10 sq] by simp
  obtain q where q: "sq div 10 = Suc q"
    using assms(2) sq by (cases "sq div 10") auto
  have s1: "sq = 10 * q + 19" using sq q by simp
  have s2: "Suc (sq - 18) = 10 * q + 2" using s1 by simp
  have a: "(10 * q + 2) div 10 = q" "(10 * q + 2) mod 10 = 2"
    "(10 * q + 19) div 10 = q + 1" "(10 * q + 19) mod 10 = 9"
    by presburger+
  have "fen_measure (10 * q + 2) < fen_measure (10 * q + 19)"
    unfolding fen_measure_def a by simp
  then show ?thesis using s1 s2 by simp
qed

lemma fen_measure_file:
  assumes "sq mod 10 \<noteq> 9"
  shows "fen_measure (Suc sq) < fen_measure sq"
proof -
  have lt: "sq mod 10 < 9"
    using assms mod_less_divisor [of 10 sq] by linarith
  have m: "Suc sq mod 10 = Suc (sq mod 10)"
    using lt by (simp add: mod_Suc)
  have d: "Suc sq div 10 = sq div 10"
    using lt m by (simp add: div_Suc)
  show ?thesis using lt by (simp add: fen_measure_def m d)
qed

definition flush_blanks :: "nat \<Rightarrow> string \<Rightarrow> string" where
  "flush_blanks blank_count result =
    (if blank_count \<noteq> 0 then result @ [char_of (48 + blank_count)] else result)"

definition fen_row_break :: "nat \<Rightarrow> nat \<Rightarrow> string \<Rightarrow> nat \<times> nat \<times> string" where
  "fen_row_break square_idx blank_count result =
    (if square_idx mod 10 = 9
     then (square_idx - 18, 0, flush_blanks blank_count result @ ''/'')
     else (square_idx, blank_count, result))"

definition fen_cell :: "piece_t \<Rightarrow> nat \<Rightarrow> string \<Rightarrow> nat \<times> string" where
  "fen_cell piece blank_count result =
    (if piece = INVALID_PIECE then (blank_count + 1, result)
     else (0, flush_blanks blank_count result @ [char_from_piece piece]))"

function fen_board :: "piece_t list \<Rightarrow> nat \<Rightarrow> nat \<Rightarrow> string \<Rightarrow> error + (nat \<times> string)" where
  "fen_board ps square_idx blank_count result =
    (if square_idx = 29 then Inr (blank_count, result)
     else if square_idx mod 10 = 9 \<and> (square_idx < 18 \<or> blank_count > 8) then Inl FenParseError
     else
       case fen_row_break square_idx blank_count result of
         (square_idx, blank_count, result) \<Rightarrow>
           if \<not> square_idx < 120 then Inl FenParseError
           else
             case fen_cell (ps ! square_idx) blank_count result of
               (blank_count, result) \<Rightarrow> fen_board ps (square_idx + 1) blank_count result)"
  by pat_completeness auto
termination
  apply (relation "measure (\<lambda>(ps, sq, blank, result). fen_measure sq)")
   apply simp
  apply (clarsimp simp: fen_row_break_def split: if_splits)
   apply (rule fen_measure_row, assumption, assumption)
  apply (rule fen_measure_file, assumption)
  done

declare fen_board.simps [simp del]

definition fen :: "board \<Rightarrow> error + string" where
  "fen b =
    ebind (fen_board (m_pieces b) A8 0 []) (\<lambda>(blank_count, result).
      let result = flush_blanks blank_count result @ '' '';
          result = result @ [if m_next_move_colour b = WHITE then CHR ''w'' else CHR ''b'']
                     @ '' '';
          result = (if m_castle_state b = 0 then result @ ''-''
                    else result
                      @ (if m_castle_state b AND WHITE_SHORT \<noteq> 0 then ''K'' else [])
                      @ (if m_castle_state b AND WHITE_LONG \<noteq> 0 then ''Q'' else [])
                      @ (if m_castle_state b AND BLACK_SHORT \<noteq> 0 then ''k'' else [])
                      @ (if m_castle_state b AND BLACK_LONG \<noteq> 0 then ''q'' else []))
                     @ '' '';
          result = result @ string_from_square (m_en_passant b) @ '' '';
          result = result @ digits_of (m_fifty_move b) @ '' '';
          result = result @ digits_of (m_half_move b div 2)
      in Inr result)"

section \<open>Concrete tables and positions for evaluation\<close>

text \<open>
  One instance of the hash tables, used wherever a statement is evaluated on a concrete
  position.
\<close>

definition example_tables :: hash_tables where
  "example_tables =
    \<lparr>piece_hash = (\<lambda>sq p. if valid_piece p \<and> valid_square sq
                             then word_of_nat (16 * sq + p) * 0x9E3779B97F4A7C15 else 0),
     castle_hash = (\<lambda>c. word_of_nat (c + 1) * 0xC2B2AE3D27D4EB4F),
     enpas_hash = (\<lambda>sq. if sq = INVALID_SQUARE then 0
                          else word_of_nat sq * 0x165667B19E3779F9),
     side_hash = 0xF8D626AAAF278509\<rparr>"

section \<open>Frame lemmas of the primitive updates\<close>

lemma remove_piece_frame:
  assumes "remove_piece T b sq = Inr b'"
  shows "m_history b' = m_history b" "m_next_move_colour b' = m_next_move_colour b"
    "m_castle_state b' = m_castle_state b" "m_en_passant b' = m_en_passant b"
    "m_fifty_move b' = m_fifty_move b" "m_half_move b' = m_half_move b"
    "m_move_cache b' = m_move_cache b"
  using assms by (auto simp: remove_piece_def Let_def split: if_splits)

lemma add_piece_frame:
  assumes "add_piece T b sq piece = Inr b'"
  shows "m_history b' = m_history b" "m_next_move_colour b' = m_next_move_colour b"
    "m_castle_state b' = m_castle_state b" "m_en_passant b' = m_en_passant b"
    "m_fifty_move b' = m_fifty_move b" "m_half_move b' = m_half_move b"
    "m_move_cache b' = m_move_cache b"
  using assms by (auto simp: add_piece_def Let_def split: if_splits)

lemma move_piece_frame:
  assumes "move_piece T b from to = Inr b'"
  shows "m_history b' = m_history b" "m_next_move_colour b' = m_next_move_colour b"
    "m_castle_state b' = m_castle_state b" "m_en_passant b' = m_en_passant b"
    "m_fifty_move b' = m_fifty_move b" "m_half_move b' = m_half_move b"
    "m_move_cache b' = m_move_cache b"
  using assms by (auto simp: move_piece_def Let_def split: if_splits)

lemma set_castle_state_simps [simp]:
  "m_history (set_castle_state T b c) = m_history b"
  "m_next_move_colour (set_castle_state T b c) = m_next_move_colour b"
  "m_castle_state (set_castle_state T b c) = c"
  "m_en_passant (set_castle_state T b c) = m_en_passant b"
  "m_fifty_move (set_castle_state T b c) = m_fifty_move b"
  "m_half_move (set_castle_state T b c) = m_half_move b"
  "m_move_cache (set_castle_state T b c) = m_move_cache b"
  "m_pieces (set_castle_state T b c) = m_pieces b"
  "m_positions (set_castle_state T b c) = m_positions b"
  "m_num_pieces (set_castle_state T b c) = m_num_pieces b"
  by (simp_all add: set_castle_state_def)

lemma set_en_passant_simps [simp]:
  "m_history (set_en_passant T b sq) = m_history b"
  "m_next_move_colour (set_en_passant T b sq) = m_next_move_colour b"
  "m_castle_state (set_en_passant T b sq) = m_castle_state b"
  "m_en_passant (set_en_passant T b sq) = sq"
  "m_fifty_move (set_en_passant T b sq) = m_fifty_move b"
  "m_half_move (set_en_passant T b sq) = m_half_move b"
  "m_move_cache (set_en_passant T b sq) = m_move_cache b"
  "m_pieces (set_en_passant T b sq) = m_pieces b"
  "m_positions (set_en_passant T b sq) = m_positions b"
  "m_num_pieces (set_en_passant T b sq) = m_num_pieces b"
  by (simp_all add: set_en_passant_def)

lemma update_castling_simps [simp]:
  "m_history (update_castling T b sq moved) = m_history b"
  "m_next_move_colour (update_castling T b sq moved) = m_next_move_colour b"
  "m_castle_state (update_castling T b sq moved) =
     (if is_castle moved then strip_castling sq (m_castle_state b) else m_castle_state b)"
  "m_en_passant (update_castling T b sq moved) = m_en_passant b"
  "m_fifty_move (update_castling T b sq moved) = m_fifty_move b"
  "m_half_move (update_castling T b sq moved) = m_half_move b"
  "m_move_cache (update_castling T b sq moved) = m_move_cache b"
  "m_pieces (update_castling T b sq moved) = m_pieces b"
  "m_positions (update_castling T b sq moved) = m_positions b"
  "m_num_pieces (update_castling T b sq moved) = m_num_pieces b"
  by (simp_all add: update_castling_def Let_def)

lemma switch_colours_simps [simp]:
  "m_history (switch_colours T b) = m_history b"
  "m_next_move_colour (switch_colours T b) = (\<not> m_next_move_colour b)"
  "m_castle_state (switch_colours T b) = m_castle_state b"
  "m_en_passant (switch_colours T b) = m_en_passant b"
  "m_fifty_move (switch_colours T b) = m_fifty_move b"
  "m_half_move (switch_colours T b) = m_half_move b"
  "m_move_cache (switch_colours T b) = m_move_cache b"
  "m_pieces (switch_colours T b) = m_pieces b"
  "m_positions (switch_colours T b) = m_positions b"
  "m_num_pieces (switch_colours T b) = m_num_pieces b"
  by (simp_all add: switch_colours_def)

lemmas prim_frame = remove_piece_frame add_piece_frame move_piece_frame

text \<open>What \<open>apply_move\<close> leaves alone, and what it does to the castle state.\<close>

lemma apply_move_frame:
  assumes "apply_move T b move cur_side = Inr b'"
  shows "m_history b' = m_history b" "m_next_move_colour b' = m_next_move_colour b"
    "m_fifty_move b' = m_fifty_move b" "m_half_move b' = m_half_move b"
    "m_move_cache b' = m_move_cache b"
  using assms
  by (auto simp: apply_move_def Let_def ebind_eq_Inr prim_frame split: if_splits)

lemma apply_move_castle_state:
  assumes "apply_move T b move cur_side = Inr b'"
  shows "m_castle_state b' =
    (if move_promoted move then m_castle_state b
     else if move_castled move then
       m_castle_state b AND NOT (if cur_side = WHITE then WHITE_LONG OR WHITE_SHORT
                                 else BLACK_LONG OR BLACK_SHORT)
     else if (move_flag move = QUIET_MOVE \<or> move_flag move = CAPTURE_MOVE)
             \<and> is_castle (moved_piece move)
       then strip_castling (move_from move) (m_castle_state b)
       else m_castle_state b)"
  using assms
  by (auto simp: apply_move_def Let_def ebind_eq_Inr prim_frame move_promoted_def move_castled_def split: if_splits)


text \<open>
  The two castle bits of a side, as \<open>make_move\<close> masks them on a castle move, and the
  three squares of its back rank that \<open>update_castling\<close> looks at.
\<close>

definition side_castle_mask :: "bool \<Rightarrow> castle_t" where
  "side_castle_mask side =
    (if side = WHITE then WHITE_LONG OR WHITE_SHORT else BLACK_LONG OR BLACK_SHORT)"

definition home_squares :: "bool \<Rightarrow> square_t list" where
  "home_squares side = (if side = WHITE then [E1, A1, H1] else [E8, A8, H8])"

lemma strip_castling_other_side:
  "sq \<notin> set (home_squares (\<not> side)) \<Longrightarrow>
   strip_castling sq c AND side_castle_mask (\<not> side) = c AND side_castle_mask (\<not> side)"
  apply (cases side)
  by (auto simp: strip_castling_def home_squares_def side_castle_mask_def Let_def WHITE_def
        castle_defs square_defs and.assoc)

lemma make_move_fields:
  assumes "make_move T b move = Inr (ok, b')"
  shows "\<exists>b1. apply_move T (b\<lparr>m_history := m_history b @
            [\<lparr>h_move = move, h_castle_state = m_castle_state b, h_en_passant = m_en_passant b,
              h_fifty_move = m_fifty_move b, h_hash = m_hash b\<rparr>],
            m_half_move := m_half_move b + 1\<rparr>) move (m_next_move_colour b) = Inr b1
         \<and> b' = switch_colours T (b1\<lparr>m_fifty_move :=
                  (if move_captured move \<or> is_pawn (moved_piece move) then 0
                   else m_fifty_move b1 + 1)\<rparr>)
         \<and> ok = (\<not> square_attacked_unguarded b'
                   (m_positions b' ! (if m_next_move_colour b = WHITE then WHITE_KING else BLACK_KING) ! 0)
                   (\<not> m_next_move_colour b))"
  using assms
  by (auto simp: make_move_def Let_def ebind_eq_Inr square_attacked_Inr)


lemma ray_attacked_cong: "m_pieces a = m_pieces b \<Longrightarrow> ray_attacked a = ray_attacked b"
  by (simp add: fun_eq_iff ray_attacked_def)

lemma square_attacked_unguarded_cong:
  assumes p: "m_pieces a = m_pieces b" and q: "m_positions a = m_positions b"
  shows "square_attacked_unguarded a sq side = square_attacked_unguarded b sq side"
proof -
  have r: "ray_attacked a = ray_attacked b"
    using p by (rule ray_attacked_cong)
  show ?thesis
    unfolding square_attacked_unguarded_def p q r by (rule refl)
qed

section \<open>C9: the guard of square_attacked\<close>

text \<open>
  C9. In \<open>square_attacked(sq, side)\<close> the early return conditioned on the occupant of
  \<open>sq\<close> never fires: for every board, square and side the function returns what its body
  without the guard returns, the value computed from the ray walks with king adjacency,
  the knight offsets and the pawn offsets, which are -9 and -11 for white and 9 and 11
  for black.
\<close>

theorem square_attacked_guard_dead:
  "square_attacked b sq side = Inr (square_attacked_unguarded b sq side)
   \<and> pawn_attack_offsets WHITE = [-9, -11] \<and> pawn_attack_offsets BLACK = [9, 11]"
  by (simp add: square_attacked_def get_side_bool_to_int pawn_attack_offsets_def WHITE_def
      BLACK_def)

section \<open>C10: castle rights after make_move\<close>

text \<open>
  The claim as stated fails where the capturing piece is a rook that itself leaves a
  home square of the other side: in \<open>R6r/8/8/8/8/8/1k6/4K3 w q - 0 1\<close> the white rook on
  a8 takes the black rook on its corner h8, and \<open>update_castling(A8, WHITE_ROOK)\<close>
  clears black's long castle right.
\<close>

theorem make_move_castle_rights_cex:
  "(case parse_fen example_tables ''R6r/8/8/8/8/8/1k6/4K3 w q - 0 1'' of
      Inl e \<Rightarrow> False
    | Inr b \<Rightarrow>
        (case pseudo_moves b None of
           Inl e \<Rightarrow> False
         | Inr (ms, b1) \<Rightarrow>
             List.member ms (capture_move A8 H8 WHITE_ROOK BLACK_ROOK)
             \<and> m_pieces b1 ! H8 = BLACK_ROOK
             \<and> m_castle_state b1 AND side_castle_mask BLACK = BLACK_LONG
             \<and> (case make_move example_tables b1 (capture_move A8 H8 WHITE_ROOK BLACK_ROOK) of
                   Inl e \<Rightarrow> False
                 | Inr (ok, b') \<Rightarrow> ok \<and> m_castle_state b' AND side_castle_mask BLACK = 0)))"
  by code_simp

text \<open>
  C10 (amended). After \<open>make_move\<close> the castle state is a function of the old state, the
  kind of move, the from-square and the moved piece only: unchanged by a promotion, the
  mover's two bits cleared by a castle move, \<open>strip_castling\<close> of the from-square when a
  king or rook (of either colour) makes a quiet or capture move, unchanged otherwise.
  In particular a promotion-capture, and a capture whose moving piece is not a king or
  rook leaving one of the opponent's squares E, A or H of its back rank, leaves the
  opponent's castle bits unchanged, also when it removes a rook from its home corner.
\<close>

theorem make_move_castle_rights:
  "make_move T b move = Inr (ok, b') \<Longrightarrow>
     m_castle_state b' =
       (if move_promoted move then m_castle_state b
        else if move_castled move
          then m_castle_state b AND NOT (side_castle_mask (m_next_move_colour b))
        else if (move_flag move = QUIET_MOVE \<or> move_flag move = CAPTURE_MOVE)
                \<and> is_castle (moved_piece move)
          then strip_castling (move_from move) (m_castle_state b)
          else m_castle_state b)
   \<and> ((move_flag move = PROMOTE_CAPTURE_MOVE
        \<or> move_flag move = CAPTURE_MOVE
          \<and> \<not> (is_castle (moved_piece move)
                \<and> move_from move \<in> set (home_squares (\<not> m_next_move_colour b))))
       \<longrightarrow> m_castle_state b' AND side_castle_mask (\<not> m_next_move_colour b)
           = m_castle_state b AND side_castle_mask (\<not> m_next_move_colour b))"
proof -
  assume mk: "make_move T b move = Inr (ok, b')"
  from make_move_fields [OF mk] obtain b1 where
    ap: "apply_move T (b\<lparr>m_history := m_history b @
            [\<lparr>h_move = move, h_castle_state = m_castle_state b, h_en_passant = m_en_passant b,
              h_fifty_move = m_fifty_move b, h_hash = m_hash b\<rparr>],
            m_half_move := m_half_move b + 1\<rparr>) move (m_next_move_colour b) = Inr b1" and
    b': "b' = switch_colours T (b1\<lparr>m_fifty_move :=
                  (if move_captured move \<or> is_pawn (moved_piece move) then 0
                   else m_fifty_move b1 + 1)\<rparr>)"
    by blast
  have cs: "m_castle_state b' =
       (if move_promoted move then m_castle_state b
        else if move_castled move
          then m_castle_state b AND NOT (side_castle_mask (m_next_move_colour b))
        else if (move_flag move = QUIET_MOVE \<or> move_flag move = CAPTURE_MOVE)
                \<and> is_castle (moved_piece move)
          then strip_castling (move_from move) (m_castle_state b)
          else m_castle_state b)"
    using apply_move_castle_state [OF ap] by (simp add: b' side_castle_mask_def)
  show ?thesis
    unfolding cs
    by (auto simp: move_promoted_def move_castled_def strip_castling_other_side)
qed

text \<open>
  The theorem where a white bishop takes the black rook on a8 while black holds both
  castle rights: both remain set.
\<close>

theorem make_move_castle_rights_witness:
  "\<exists>b ok b'. parse_fen example_tables ''r3k2r/8/8/8/8/8/6B1/4K3 w kq - 0 1'' = Inr b
     \<and> make_move example_tables b (capture_move 37 A8 WHITE_BISHOP BLACK_ROOK) = Inr (ok, b')
     \<and> m_pieces b ! A8 = BLACK_ROOK
     \<and> m_castle_state b = BLACK_SHORT OR BLACK_LONG
     \<and> m_castle_state b' = BLACK_SHORT OR BLACK_LONG"
proof -
  let ?f = "''r3k2r/8/8/8/8/8/6B1/4K3 w kq - 0 1''"
  let ?m = "capture_move 37 A8 WHITE_BISHOP BLACK_ROOK"
  have run: "(case parse_fen example_tables ?f of Inl e \<Rightarrow> False
              | Inr b \<Rightarrow> m_pieces b ! A8 = BLACK_ROOK
                  \<and> m_castle_state b = BLACK_SHORT OR BLACK_LONG
                  \<and> m_next_move_colour b = WHITE
                  \<and> (case make_move example_tables b ?m of Inl e \<Rightarrow> False | Inr r \<Rightarrow> True))"
    by code_simp
  have m: "move_flag ?m = CAPTURE_MOVE" "\<not> is_castle (moved_piece ?m)" "\<not> move_promoted ?m"
    "\<not> move_castled ?m"
    by (simp_all add: capture_move_def is_castle_def move_promoted_def move_castled_def
        WHITE_BISHOP_def)
  from run obtain b where pf: "parse_fen example_tables ?f = Inr b" and
    start: "m_pieces b ! A8 = BLACK_ROOK" "m_castle_state b = BLACK_SHORT OR BLACK_LONG"
      "m_next_move_colour b = WHITE" and
    r: "(case make_move example_tables b ?m of Inl e \<Rightarrow> False | Inr r \<Rightarrow> True)"
    by (cases "parse_fen example_tables ?f") auto
  from r obtain ok b' where mk: "make_move example_tables b ?m = Inr (ok, b')"
    by (cases "make_move example_tables b ?m") auto
  from make_move_castle_rights [OF mk] start m pf show ?thesis
    by (auto simp: mk)
qed


section \<open>C3 and C4: the move cache and the draw cut-off\<close>

text \<open>
  C4. The claim: whenever \<open>fifty_move > 75\<close> or \<open>half_move > 1000\<close>, \<open>pseudo_moves\<close>
  returns the empty list. The code asks the cache before it looks at the clocks, and the
  hash that keys the cache does not contain the clocks. Evaluated here: from
  \<open>4k1n1/8/8/8/8/8/8/4K1N1 w - - 74 40\<close> the moves are listed once (and cached), both
  knights go out and back, and the same position stands with \<open>fifty_move = 78\<close> and the
  same hash; \<open>pseudo_moves\<close> then returns the eight cached moves.
\<close>

theorem pseudo_moves_cached_after_fifty_cutoff:
  "(case parse_fen example_tables ''4k1n1/8/8/8/8/8/8/4K1N1 w - - 74 40'' of
      Inl e \<Rightarrow> False
    | Inr b0 \<Rightarrow>
    (case pseudo_moves b0 None of Inl e \<Rightarrow> False | Inr (ms0, b1) \<Rightarrow>
    (case make_move example_tables b1 (quiet_move 27 46 WHITE_KNIGHT) of
       Inl e \<Rightarrow> False | Inr (ok1, b2) \<Rightarrow>
    (case make_move example_tables b2 (quiet_move 97 76 BLACK_KNIGHT) of
       Inl e \<Rightarrow> False | Inr (ok2, b3) \<Rightarrow>
    (case make_move example_tables b3 (quiet_move 46 27 WHITE_KNIGHT) of
       Inl e \<Rightarrow> False | Inr (ok3, b4) \<Rightarrow>
    (case make_move example_tables b4 (quiet_move 76 97 BLACK_KNIGHT) of
       Inl e \<Rightarrow> False | Inr (ok4, b5) \<Rightarrow>
    (case pseudo_moves b5 None of Inl e \<Rightarrow> False | Inr (ms5, b6) \<Rightarrow>
       ok1 \<and> ok2 \<and> ok3 \<and> ok4 \<and> m_fifty_move b5 = 78 \<and> 75 < m_fifty_move b5
       \<and> m_pieces b5 = m_pieces b0 \<and> m_hash b5 = m_hash b0
       \<and> ms5 = ms0 \<and> length ms5 = 8)))))))"
  by code_simp

text \<open>
  C3. The claim: what \<open>pseudo_moves\<close> returns on a cache hit is what it would compute
  from scratch for that board. Evaluated here: from
  \<open>4k2r/8/8/8/8/8/8/R3K3 w - - 10 499\<close> (\<open>half_move = 998\<close>) the moves are listed once,
  both rooks step aside and back, and the same position stands with \<open>half_move = 1002\<close>
  and the same hash. On that board \<open>pseudo_moves\<close> returns the fifteen cached moves,
  while the same board with an empty cache gets the empty list.
\<close>

theorem pseudo_moves_cache_not_transparent:
  "(case parse_fen example_tables ''4k2r/8/8/8/8/8/8/R3K3 w - - 10 499'' of
      Inl e \<Rightarrow> False
    | Inr b0 \<Rightarrow>
    (case pseudo_moves b0 None of Inl e \<Rightarrow> False | Inr (ms0, b1) \<Rightarrow>
    (case make_move example_tables b1 (quiet_move 21 22 WHITE_ROOK) of
       Inl e \<Rightarrow> False | Inr (ok1, b2) \<Rightarrow>
    (case make_move example_tables b2 (quiet_move 98 97 BLACK_ROOK) of
       Inl e \<Rightarrow> False | Inr (ok2, b3) \<Rightarrow>
    (case make_move example_tables b3 (quiet_move 22 21 WHITE_ROOK) of
       Inl e \<Rightarrow> False | Inr (ok3, b4) \<Rightarrow>
    (case make_move example_tables b4 (quiet_move 97 98 BLACK_ROOK) of
       Inl e \<Rightarrow> False | Inr (ok4, b5) \<Rightarrow>
    (case pseudo_moves b5 None of Inl e \<Rightarrow> False | Inr (cached, b6) \<Rightarrow>
    (case pseudo_moves (b5\<lparr>m_move_cache := Map.empty\<rparr>) None of
       Inl e \<Rightarrow> False | Inr (fresh, b7) \<Rightarrow>
       ok1 \<and> ok2 \<and> ok3 \<and> ok4 \<and> m_half_move b0 = 998 \<and> m_half_move b5 = 1002
       \<and> m_hash b5 = m_hash b0 \<and> m_pieces b5 = m_pieces b0
       \<and> cached = ms0 \<and> length cached = 15 \<and> fresh = []))))))))"
  by code_simp

section \<open>What the generator emits\<close>

text \<open>
  A quiet or capture move of \<open>piece\<close> from \<open>start\<close>, as the slider, knight and king loops
  emit it: the target is a playing square, empty for a quiet move and holding the recorded
  piece of the other colour for a capture.
\<close>

definition plain_ok :: "piece_t list \<Rightarrow> square_t \<Rightarrow> piece_t \<Rightarrow> move_t \<Rightarrow> bool" where
  "plain_ok ps start piece m \<longleftrightarrow>
     move_from m = start \<and> moved_piece m = piece \<and> valid_square (move_to m)
     \<and> (move_flag m = QUIET_MOVE \<and> ps ! move_to m = INVALID_PIECE
        \<or> move_flag m = CAPTURE_MOVE \<and> captured_piece m = ps ! move_to m
          \<and> ps ! move_to m \<noteq> INVALID_PIECE \<and> opposite_colours piece (ps ! move_to m)
          \<and> \<not> is_king (ps ! move_to m))"

lemma slide_moves_ok:
  "offset \<noteq> 0 \<Longrightarrow> m \<in> set (slide_moves ps start piece offset cur)
   \<Longrightarrow> plain_ok ps start piece m"
proof (induction ps start piece offset cur rule: slide_moves.induct)
  case (1 ps start piece offset cur)
  show ?case
  proof (cases "valid_square cur \<and> ps ! cur = INVALID_PIECE")
    case True
    with "1.prems" have "m = quiet_move start cur piece
        \<or> m \<in> set (slide_moves ps start piece offset (sq_add cur offset))"
      by (subst (asm) slide_moves.simps) auto
    then show ?thesis
      using "1.IH" "1.prems"(1) True by (auto simp: plain_ok_def quiet_move_def)
  next
    case False
    with "1.prems" show ?thesis
      by (subst (asm) slide_moves.simps) (auto simp: plain_ok_def capture_move_def split: if_splits)
  qed
qed

lemma step_moves_ok:
  "m \<in> set (step_moves b start piece offset) \<Longrightarrow> plain_ok (m_pieces b) start piece m"
  by (auto simp: step_moves_def Let_def plain_ok_def quiet_move_def capture_move_def
      split: if_splits)

lemma king_step_moves_ok:
  "m \<in> set (king_step_moves b start piece offset) \<Longrightarrow> plain_ok (m_pieces b) start piece m"
  by (auto simp: king_step_moves_def Let_def plain_ok_def quiet_move_def capture_move_def
      split: if_splits)

lemma slider_moves_ok:
  assumes "m \<in> set (slider_moves b piece offsets)" and "0 \<notin> set offsets"
  shows "move_from m \<in> set (piece_squares b piece)
         \<and> plain_ok (m_pieces b) (move_from m) piece m"
proof -
  from assms(1) obtain start offset where so: "start \<in> set (piece_squares b piece)"
    "offset \<in> set offsets"
    "m \<in> set (slide_moves (m_pieces b) start piece offset (sq_add start offset))"
    by (auto simp: slider_moves_def)
  from so(2) assms(2) have "offset \<noteq> 0" by auto
  from slide_moves_ok [OF this so(3)] so(1) show ?thesis
    by (auto simp: plain_ok_def)
qed

lemma knight_moves_ok:
  assumes "m \<in> set (knight_moves b piece)"
  shows "move_from m \<in> set (piece_squares b piece)
         \<and> plain_ok (m_pieces b) (move_from m) piece m"
proof -
  from assms obtain start offset where so: "start \<in> set (piece_squares b piece)"
    "m \<in> set (step_moves b start piece offset)"
    by (auto simp: knight_moves_def)
  from step_moves_ok [OF so(2)] so(1) show ?thesis
    by (auto simp: plain_ok_def)
qed

text \<open>The special moves of the pawn of \<open>side\<close> on \<open>start\<close>.\<close>

definition double_ok :: "board \<Rightarrow> bool \<Rightarrow> piece_t \<Rightarrow> square_t \<Rightarrow> move_t \<Rightarrow> bool" where
  "double_ok b side pawn_piece start m \<longleftrightarrow>
     move_from m = start \<and> moved_piece m = pawn_piece \<and> move_flag m = DOUBLE_PAWN_MOVE
     \<and> m_pieces b ! move_to m = INVALID_PIECE
     \<and> (side = WHITE \<and> get_square_row start = RANK_2 \<and> move_to m = start + 20
        \<or> side = BLACK \<and> get_square_row start = RANK_7 \<and> move_to m = start - 20)"

definition promote_ok :: "board \<Rightarrow> piece_t \<Rightarrow> piece_t list \<Rightarrow> square_t \<Rightarrow> move_t \<Rightarrow> bool" where
  "promote_ok b pawn_piece promote_pieces start m \<longleftrightarrow>
     move_from m = start \<and> moved_piece m = pawn_piece \<and> valid_square (move_to m)
     \<and> promoted_piece m \<in> set promote_pieces
     \<and> (move_flag m = PROMOTE_MOVE \<and> m_pieces b ! move_to m = INVALID_PIECE
        \<or> move_flag m = PROMOTE_CAPTURE_MOVE \<and> captured_piece m = m_pieces b ! move_to m
          \<and> m_pieces b ! move_to m \<noteq> INVALID_PIECE
          \<and> opposite_colours pawn_piece (m_pieces b ! move_to m)
          \<and> \<not> is_king (m_pieces b ! move_to m))"

definition en_passant_ok :: "board \<Rightarrow> piece_t \<Rightarrow> square_t \<Rightarrow> move_t \<Rightarrow> bool" where
  "en_passant_ok b pawn_piece start m \<longleftrightarrow>
     move_from m = start \<and> moved_piece m = pawn_piece \<and> move_flag m = EN_PASSANT_MOVE
     \<and> move_to m = m_en_passant b \<and> m_en_passant b \<noteq> INVALID_SQUARE
     \<and> m_pieces b ! move_to m = INVALID_PIECE \<and> captured_piece m = pawn_piece XOR 8"

definition pawn_ok :: "board \<Rightarrow> bool \<Rightarrow> piece_t \<Rightarrow> piece_t list \<Rightarrow> square_t \<Rightarrow> move_t \<Rightarrow> bool" where
  "pawn_ok b side pawn_piece promote_pieces start m \<longleftrightarrow>
     plain_ok (m_pieces b) start pawn_piece m
     \<or> double_ok b side pawn_piece start m
     \<or> promote_ok b pawn_piece promote_pieces start m
     \<or> en_passant_ok b pawn_piece start m"

lemma pawn_capture_moves_ok:
  assumes "m \<in> set (pawn_capture_moves b start pawn_piece promote_pieces capture)"
  shows "plain_ok (m_pieces b) start pawn_piece m
         \<or> promote_ok b pawn_piece promote_pieces start m"
proof (cases "get_square_row capture = RANK_1 \<or> get_square_row capture = RANK_8")
  case True
  with assms have "promote_ok b pawn_piece promote_pieces start m"
    by (auto simp: pawn_capture_moves_def promote_ok_def promote_capture_move_def
        split: if_splits)
  then show ?thesis ..
next
  case False
  with assms have "plain_ok (m_pieces b) start pawn_piece m"
    by (auto simp: pawn_capture_moves_def plain_ok_def capture_move_def split: if_splits)
  then show ?thesis ..
qed

lemma pawn_moves_ok:
  assumes "m \<in> set (pawn_moves b side pawn_piece promote_pieces start)"
  shows "pawn_ok b side pawn_piece promote_pieces start m"
proof -
  let ?offset = "if side = WHITE then 10 else (-10::int)"
  let ?cur = "sq_add start ?offset"
  from assms consider
    (dw) "m \<in> set (if side = WHITE \<and> get_square_row start = RANK_2
           \<and> m_pieces b ! (start + 10) = INVALID_PIECE
           \<and> m_pieces b ! (start + 20) = INVALID_PIECE
        then [double_move start (start + 20) pawn_piece] else [])"
  | (db) "m \<in> set (if side = BLACK \<and> get_square_row start = RANK_7
           \<and> m_pieces b ! (start - 10) = INVALID_PIECE
           \<and> m_pieces b ! (start - 20) = INVALID_PIECE
        then [double_move start (start - 20) pawn_piece] else [])"
  | (push) "m \<in> set (if valid_square ?cur \<and> m_pieces b ! ?cur = INVALID_PIECE
        then (if get_square_row ?cur = RANK_1 \<or> get_square_row ?cur = RANK_8
              then map (promote_move start ?cur pawn_piece) promote_pieces
              else [quiet_move start (sq_add start ?offset) pawn_piece])
        else [])"
  | (c1) "m \<in> set (pawn_capture_moves b start pawn_piece promote_pieces (?cur - 1))"
  | (c2) "m \<in> set (pawn_capture_moves b start pawn_piece promote_pieces (?cur + 1))"
  | (ep) "m_en_passant b \<noteq> INVALID_SQUARE"
         "m = en_passant_move start (m_en_passant b) pawn_piece"
         "m_pieces b ! m_en_passant b = INVALID_PIECE"
    unfolding pawn_moves_def Let_def set_append Un_iff
    by (elim disjE) (simp_all split: if_splits, metis+)
  then show ?thesis
  proof cases
    case dw
    then have "double_ok b side pawn_piece start m"
      by (simp add: double_ok_def double_move_def split: if_splits)
    then show ?thesis by (simp add: pawn_ok_def)
  next
    case db
    then have "double_ok b side pawn_piece start m"
      by (simp add: double_ok_def double_move_def split: if_splits)
    then show ?thesis by (simp add: pawn_ok_def)
  next
    case push
    show ?thesis
    proof (cases "get_square_row ?cur = RANK_1 \<or> get_square_row ?cur = RANK_8")
      case True
      with push have "promote_ok b pawn_piece promote_pieces start m"
        by (auto simp: promote_ok_def promote_move_def split: if_splits)
      then show ?thesis by (simp add: pawn_ok_def)
    next
      case False
      with push have "plain_ok (m_pieces b) start pawn_piece m"
        by (auto simp: plain_ok_def quiet_move_def split: if_splits)
      then show ?thesis by (simp add: pawn_ok_def)
    qed
  next
    case c1
    from pawn_capture_moves_ok [OF this] show ?thesis by (auto simp: pawn_ok_def)
  next
    case c2
    from pawn_capture_moves_ok [OF this] show ?thesis by (auto simp: pawn_ok_def)
  next
    case ep
    then have "en_passant_ok b pawn_piece start m"
      by (simp add: en_passant_ok_def en_passant_move_def)
    then show ?thesis by (simp add: pawn_ok_def)
  qed
qed


text \<open>
  A castle move of \<open>side\<close> as the last block of \<open>pseudo_moves\<close> emits it: the right bit
  is set, the king's square and the square it crosses are not attacked by the other
  side, and the squares between king and rook are empty. The king's target square is
  tested for emptiness only.
\<close>

definition castle_ok :: "board \<Rightarrow> bool \<Rightarrow> move_t \<Rightarrow> bool" where
  "castle_ok b side m \<longleftrightarrow>
     side = WHITE \<and>
       (m = castle_move E1 G1 WHITE_KING SHORT_CASTLE_MOVE
          \<and> m_castle_state b AND WHITE_SHORT \<noteq> 0
          \<and> \<not> square_attacked_unguarded b E1 BLACK \<and> \<not> square_attacked_unguarded b F1 BLACK
          \<and> m_pieces b ! F1 = INVALID_PIECE \<and> m_pieces b ! G1 = INVALID_PIECE
        \<or> m = castle_move E1 C1 WHITE_KING LONG_CASTLE_MOVE
          \<and> m_castle_state b AND WHITE_LONG \<noteq> 0
          \<and> \<not> square_attacked_unguarded b E1 BLACK \<and> \<not> square_attacked_unguarded b D1 BLACK
          \<and> m_pieces b ! D1 = INVALID_PIECE \<and> m_pieces b ! C1 = INVALID_PIECE
          \<and> m_pieces b ! B1 = INVALID_PIECE)
     \<or> side = BLACK \<and>
       (m = castle_move E8 G8 BLACK_KING SHORT_CASTLE_MOVE
          \<and> m_castle_state b AND BLACK_SHORT \<noteq> 0
          \<and> \<not> square_attacked_unguarded b E8 WHITE \<and> \<not> square_attacked_unguarded b F8 WHITE
          \<and> m_pieces b ! F8 = INVALID_PIECE \<and> m_pieces b ! G8 = INVALID_PIECE
        \<or> m = castle_move E8 C8 BLACK_KING LONG_CASTLE_MOVE
          \<and> m_castle_state b AND BLACK_LONG \<noteq> 0
          \<and> \<not> square_attacked_unguarded b E8 WHITE \<and> \<not> square_attacked_unguarded b D8 WHITE
          \<and> m_pieces b ! D8 = INVALID_PIECE \<and> m_pieces b ! C8 = INVALID_PIECE
          \<and> m_pieces b ! B8 = INVALID_PIECE)"

lemma castling_moves_ok:
  assumes "castling_moves b side = Inr cs" and "m \<in> set cs"
  shows "castle_ok b side m"
proof (cases "side = WHITE")
  case True
  from assms(1) True have cs: "cs =
      (if m_castle_state b AND WHITE_SHORT \<noteq> 0 \<and> \<not> square_attacked_unguarded b E1 BLACK
          \<and> \<not> square_attacked_unguarded b F1 BLACK
          \<and> m_pieces b ! F1 = INVALID_PIECE \<and> m_pieces b ! G1 = INVALID_PIECE
       then [castle_move E1 G1 WHITE_KING SHORT_CASTLE_MOVE] else [])
    @ (if m_castle_state b AND WHITE_LONG \<noteq> 0 \<and> \<not> square_attacked_unguarded b E1 BLACK
          \<and> \<not> square_attacked_unguarded b D1 BLACK
          \<and> m_pieces b ! D1 = INVALID_PIECE \<and> m_pieces b ! C1 = INVALID_PIECE
          \<and> m_pieces b ! B1 = INVALID_PIECE
       then [castle_move E1 C1 WHITE_KING LONG_CASTLE_MOVE] else [])"
    by (simp add: castling_moves_def square_attacked_Inr)
  have "m = castle_move E1 G1 WHITE_KING SHORT_CASTLE_MOVE
          \<and> m_castle_state b AND WHITE_SHORT \<noteq> 0
          \<and> \<not> square_attacked_unguarded b E1 BLACK \<and> \<not> square_attacked_unguarded b F1 BLACK
          \<and> m_pieces b ! F1 = INVALID_PIECE \<and> m_pieces b ! G1 = INVALID_PIECE
        \<or> m = castle_move E1 C1 WHITE_KING LONG_CASTLE_MOVE
          \<and> m_castle_state b AND WHITE_LONG \<noteq> 0
          \<and> \<not> square_attacked_unguarded b E1 BLACK \<and> \<not> square_attacked_unguarded b D1 BLACK
          \<and> m_pieces b ! D1 = INVALID_PIECE \<and> m_pieces b ! C1 = INVALID_PIECE
          \<and> m_pieces b ! B1 = INVALID_PIECE"
    using assms(2) unfolding cs set_append Un_iff
    by (elim disjE) (simp_all split: if_splits)
  with True show ?thesis
    unfolding castle_ok_def by blast
next
  case False
  then have bl: "side = BLACK" by (simp add: WHITE_def BLACK_def)
  from assms(1) False have cs: "cs =
      (if m_castle_state b AND BLACK_SHORT \<noteq> 0 \<and> \<not> square_attacked_unguarded b E8 WHITE
          \<and> \<not> square_attacked_unguarded b F8 WHITE
          \<and> m_pieces b ! F8 = INVALID_PIECE \<and> m_pieces b ! G8 = INVALID_PIECE
       then [castle_move E8 G8 BLACK_KING SHORT_CASTLE_MOVE] else [])
    @ (if m_castle_state b AND BLACK_LONG \<noteq> 0 \<and> \<not> square_attacked_unguarded b E8 WHITE
          \<and> \<not> square_attacked_unguarded b D8 WHITE
          \<and> m_pieces b ! D8 = INVALID_PIECE \<and> m_pieces b ! C8 = INVALID_PIECE
          \<and> m_pieces b ! B8 = INVALID_PIECE
       then [castle_move E8 C8 BLACK_KING LONG_CASTLE_MOVE] else [])"
    by (simp add: castling_moves_def square_attacked_Inr)
  have "m = castle_move E8 G8 BLACK_KING SHORT_CASTLE_MOVE
          \<and> m_castle_state b AND BLACK_SHORT \<noteq> 0
          \<and> \<not> square_attacked_unguarded b E8 WHITE \<and> \<not> square_attacked_unguarded b F8 WHITE
          \<and> m_pieces b ! F8 = INVALID_PIECE \<and> m_pieces b ! G8 = INVALID_PIECE
        \<or> m = castle_move E8 C8 BLACK_KING LONG_CASTLE_MOVE
          \<and> m_castle_state b AND BLACK_LONG \<noteq> 0
          \<and> \<not> square_attacked_unguarded b E8 WHITE \<and> \<not> square_attacked_unguarded b D8 WHITE
          \<and> m_pieces b ! D8 = INVALID_PIECE \<and> m_pieces b ! C8 = INVALID_PIECE
          \<and> m_pieces b ! B8 = INVALID_PIECE"
    using assms(2) unfolding cs set_append Un_iff
    by (elim disjE) (simp_all split: if_splits)
  with bl show ?thesis
    unfolding castle_ok_def by blast
qed

text \<open>The piece identifiers \<open>pseudo_moves\<close> selects for \<open>side\<close>.\<close>

definition king_of :: "bool \<Rightarrow> piece_t" where
  "king_of side = (if side = WHITE then WHITE_KING else BLACK_KING)"
definition queen_of :: "bool \<Rightarrow> piece_t" where
  "queen_of side = (if side = WHITE then WHITE_QUEEN else BLACK_QUEEN)"
definition rook_of :: "bool \<Rightarrow> piece_t" where
  "rook_of side = (if side = WHITE then WHITE_ROOK else BLACK_ROOK)"
definition bishop_of :: "bool \<Rightarrow> piece_t" where
  "bishop_of side = (if side = WHITE then WHITE_BISHOP else BLACK_BISHOP)"
definition knight_of :: "bool \<Rightarrow> piece_t" where
  "knight_of side = (if side = WHITE then WHITE_KNIGHT else BLACK_KNIGHT)"
definition pawn_of :: "bool \<Rightarrow> piece_t" where
  "pawn_of side = (if side = WHITE then WHITE_PAWN else BLACK_PAWN)"
definition promote_pieces_of :: "bool \<Rightarrow> piece_t list" where
  "promote_pieces_of side =
     [queen_of side XOR 8, rook_of side XOR 8, bishop_of side XOR 8, knight_of side XOR 8]"

lemmas side_piece_defs = king_of_def queen_of_def rook_of_def bishop_of_def knight_of_def
  pawn_of_def promote_pieces_of_def

text \<open>Every move the generation emits for \<open>side\<close> has one of these shapes.\<close>

definition pseudo_ok :: "board \<Rightarrow> bool \<Rightarrow> move_t \<Rightarrow> bool" where
  "pseudo_ok b side m \<longleftrightarrow>
     (moved_piece m \<in> {queen_of side, rook_of side, bishop_of side, knight_of side}
        \<and> move_from m \<in> set (piece_squares b (moved_piece m))
        \<and> plain_ok (m_pieces b) (move_from m) (moved_piece m) m)
     \<or> (move_from m \<in> set (piece_squares b (pawn_of side))
        \<and> pawn_ok b side (pawn_of side) (promote_pieces_of side) (move_from m) m)
     \<or> plain_ok (m_pieces b) (m_positions b ! king_of side ! 0) (king_of side) m
     \<or> castle_ok b side m"

lemma plain_ok_moved: "plain_ok ps start piece m \<Longrightarrow> moved_piece m = piece \<and> move_from m = start"
  by (simp add: plain_ok_def)

lemma pseudo_ok_plainI:
  assumes "piece \<in> {queen_of side, rook_of side, bishop_of side, knight_of side}"
    and "move_from m \<in> set (piece_squares b piece)
         \<and> plain_ok (m_pieces b) (move_from m) piece m"
  shows "pseudo_ok b side m"
proof -
  from assms(2) have mp: "piece = moved_piece m" by (simp add: plain_ok_def)
  from assms show ?thesis unfolding pseudo_ok_def mp by simp
qed

lemma generate_moves_ok:
  assumes gen: "generate_moves b side = Inr ms" and m: "m \<in> set ms"
  shows "pseudo_ok b side m"
proof -
  from gen obtain castles where cs: "castling_moves b side = Inr castles" and
    ms: "ms = slider_moves b (queen_of side) queen_offsets
             @ slider_moves b (rook_of side) orthogonal_offsets
             @ slider_moves b (bishop_of side) diagonal_offsets
             @ knight_moves b (knight_of side)
             @ concat (map (pawn_moves b side (pawn_of side) (promote_pieces_of side))
                         (piece_squares b (pawn_of side)))
             @ concat (map (king_step_moves b (m_positions b ! king_of side ! 0) (king_of side))
                         queen_offsets)
             @ castles"
    by (auto simp: generate_moves_def Let_def ebind_eq_Inr side_piece_defs)
  from m consider
    (q) "m \<in> set (slider_moves b (queen_of side) queen_offsets)"
  | (r) "m \<in> set (slider_moves b (rook_of side) orthogonal_offsets)"
  | (bi) "m \<in> set (slider_moves b (bishop_of side) diagonal_offsets)"
  | (n) "m \<in> set (knight_moves b (knight_of side))"
  | (p) start where "start \<in> set (piece_squares b (pawn_of side))"
      "m \<in> set (pawn_moves b side (pawn_of side) (promote_pieces_of side) start)"
  | (k) offset where
      "m \<in> set (king_step_moves b (m_positions b ! king_of side ! 0) (king_of side) offset)"
  | (c) "m \<in> set castles"
    unfolding ms by auto
  then show ?thesis
  proof cases
    case q
    show ?thesis
      by (rule pseudo_ok_plainI [OF _ slider_moves_ok [OF q]]) (simp_all add: queen_offsets_def)
  next
    case r
    show ?thesis
      by (rule pseudo_ok_plainI [OF _ slider_moves_ok [OF r]])
        (simp_all add: orthogonal_offsets_def)
  next
    case bi
    show ?thesis
      by (rule pseudo_ok_plainI [OF _ slider_moves_ok [OF bi]])
        (simp_all add: diagonal_offsets_def)
  next
    case n
    show ?thesis
      by (rule pseudo_ok_plainI [OF _ knight_moves_ok [OF n]]) simp
  next
    case p
    have "move_from m = start"
      using pawn_moves_ok [OF p(2)]
      by (auto simp: pawn_ok_def plain_ok_def double_ok_def promote_ok_def en_passant_ok_def)
    with pawn_moves_ok [OF p(2)] p(1) show ?thesis
      by (simp add: pseudo_ok_def)
  next
    case k
    from king_step_moves_ok [OF k] show ?thesis
      by (simp add: pseudo_ok_def)
  next
    case c
    from castling_moves_ok [OF cs c] show ?thesis
      by (simp add: pseudo_ok_def)
  qed
qed

lemma pseudo_moves_miss:
  assumes "pseudo_moves b side_arg = Inr (ms, b')" and "m_move_cache b (m_hash b) = None"
    and "m \<in> set ms"
  shows "generate_moves b (case side_arg of Some s \<Rightarrow> s | None \<Rightarrow> m_next_move_colour b) = Inr ms"
    and "b' = b\<lparr>m_move_cache := (m_move_cache b)(m_hash b \<mapsto> ms)\<rparr>"
    and "\<not> (m_half_move b > 1000 \<or> m_fifty_move b > 75)"
  using assms by (auto simp: pseudo_moves_def Let_def ebind_eq_Inr split: if_splits)

lemma pseudo_ok_castled:
  assumes "pseudo_ok b side m" and "move_castled m"
  shows "castle_ok b side m"
  using assms
  unfolding pseudo_ok_def pawn_ok_def plain_ok_def double_ok_def promote_ok_def
    en_passant_ok_def move_castled_def
  by auto

lemma pseudo_ok_double:
  assumes "pseudo_ok b side m" and "move_flag m = DOUBLE_PAWN_MOVE"
  shows "double_ok b side (pawn_of side) (move_from m) m"
  using assms
  unfolding pseudo_ok_def pawn_ok_def plain_ok_def promote_ok_def
    en_passant_ok_def castle_ok_def castle_move_def
  by auto

lemma apply_move_en_passant:
  assumes "apply_move T b move cur_side = Inr b'"
  shows "m_en_passant b' =
    (if move_flag move = DOUBLE_PAWN_MOVE
     then (if cur_side = WHITE then move_to move - 10 else move_to move + 10)
     else INVALID_SQUARE)"
  using assms
  by (auto simp: apply_move_def Let_def ebind_eq_Inr prim_frame move_promoted_def
      move_castled_def split: if_splits)

text \<open>
  The squares of a castle move of \<open>cur_side\<close>: where the king leaves and lands, where
  the rook leaves and lands.
\<close>

definition castle_squares :: "bool \<Rightarrow> MoveFlag \<Rightarrow> square_t \<times> square_t \<times> square_t \<times> square_t" where
  "castle_squares cur_side flag =
    (if cur_side = WHITE
     then (if flag = SHORT_CASTLE_MOVE then (E1, G1, H1, F1) else (E1, C1, A1, D1))
     else (if flag = SHORT_CASTLE_MOVE then (E8, G8, H8, F8) else (E8, C8, A8, D8)))"

text \<open>The chain of primitive calls \<open>apply_move\<close> runs through, by the kind of move.\<close>

lemma apply_move_cases:
  assumes "apply_move T b move cur_side = Inr b'"
  obtains
    (promote) b1 b2 where "move_flag move = PROMOTE_MOVE"
      "add_piece T b (move_to move) (promoted_piece move) = Inr b1"
      "remove_piece T b1 (move_from move) = Inr b2"
      "b' = set_en_passant T b2 INVALID_SQUARE"
  | (promote_capture) b0 b1 b2 where "move_flag move = PROMOTE_CAPTURE_MOVE"
      "remove_piece T b (move_to move) = Inr b0"
      "add_piece T b0 (move_to move) (promoted_piece move) = Inr b1"
      "remove_piece T b1 (move_from move) = Inr b2"
      "b' = set_en_passant T b2 INVALID_SQUARE"
  | (castle) kf kt rf rt b1 b2 where "move_castled move"
      "castle_squares cur_side (move_flag move) = (kf, kt, rf, rt)"
      "move_piece T b kf kt = Inr b1" "move_piece T b1 rf rt = Inr b2"
      "b' = set_en_passant T (set_castle_state T b2
              (m_castle_state b2 AND NOT (if cur_side = WHITE then WHITE_LONG OR WHITE_SHORT
                                          else BLACK_LONG OR BLACK_SHORT))) INVALID_SQUARE"
  | (quiet) b1 where "move_flag move = QUIET_MOVE"
      "move_piece T (set_en_passant T b INVALID_SQUARE) (move_from move) (move_to move) = Inr b1"
      "b' = update_castling T b1 (move_from move) (moved_piece move)"
  | (double) "move_flag move = DOUBLE_PAWN_MOVE"
      "move_piece T (set_en_passant T b
          (if cur_side = WHITE then move_to move - 10 else move_to move + 10))
          (move_from move) (move_to move) = Inr b'"
  | (capture) b1 b2 where "move_flag move = CAPTURE_MOVE"
      "remove_piece T (set_en_passant T b INVALID_SQUARE) (move_to move) = Inr b1"
      "move_piece T b1 (move_from move) (move_to move) = Inr b2"
      "b' = update_castling T b2 (move_from move) (moved_piece move)"
  | (en_passant) b1 where "move_flag move = EN_PASSANT_MOVE"
      "remove_piece T (set_en_passant T b INVALID_SQUARE)
          (if cur_side = WHITE then move_to move - 10 else move_to move + 10) = Inr b1"
      "move_piece T b1 (move_from move) (move_to move) = Inr b'"
proof (cases "move_flag move")
  case QUIET_MOVE
  with assms obtain b1 where
    a: "move_piece T (set_en_passant T b INVALID_SQUARE) (move_from move) (move_to move) = Inr b1"
       "b' = update_castling T b1 (move_from move) (moved_piece move)"
    by (auto simp: apply_move_def Let_def move_promoted_def move_castled_def move_captured_def ebind_eq_Inr)
  from quiet [OF QUIET_MOVE a] show ?thesis .
next
  case DOUBLE_PAWN_MOVE
  with assms have
    a: "move_piece T (set_en_passant T b
          (if cur_side = WHITE then move_to move - 10 else move_to move + 10))
          (move_from move) (move_to move) = Inr b'"
    by (auto simp: apply_move_def Let_def move_promoted_def move_castled_def move_captured_def ebind_eq_Inr)
  from double [OF DOUBLE_PAWN_MOVE a] show ?thesis .
next
  case CAPTURE_MOVE
  with assms obtain b1 b2 where
    a: "remove_piece T (set_en_passant T b INVALID_SQUARE) (move_to move) = Inr b1"
      "move_piece T b1 (move_from move) (move_to move) = Inr b2"
      "b' = update_castling T b2 (move_from move) (moved_piece move)"
    by (auto simp: apply_move_def Let_def move_promoted_def move_castled_def move_captured_def ebind_eq_Inr)
  from capture [OF CAPTURE_MOVE a] show ?thesis .
next
  case EN_PASSANT_MOVE
  with assms obtain b1 where
    a: "remove_piece T (set_en_passant T b INVALID_SQUARE)
          (if cur_side = WHITE then move_to move - 10 else move_to move + 10) = Inr b1"
      "move_piece T b1 (move_from move) (move_to move) = Inr b'"
    by (auto simp: apply_move_def Let_def move_promoted_def move_castled_def move_captured_def ebind_eq_Inr)
  from en_passant [OF EN_PASSANT_MOVE a] show ?thesis .
next
  case SHORT_CASTLE_MOVE
  then have mc: "move_castled move" by (simp add: move_castled_def)
  obtain kf kt rf rt where cs: "castle_squares cur_side (move_flag move) = (kf, kt, rf, rt)"
    by (metis prod_cases4)
  from assms SHORT_CASTLE_MOVE cs obtain b1 b2 where
    a: "move_piece T b kf kt = Inr b1" "move_piece T b1 rf rt = Inr b2"
      "b' = set_en_passant T (set_castle_state T b2
              (m_castle_state b2 AND NOT (if cur_side = WHITE then WHITE_LONG OR WHITE_SHORT
                                          else BLACK_LONG OR BLACK_SHORT))) INVALID_SQUARE"
    by (cases "cur_side = WHITE") (auto simp: apply_move_def Let_def move_promoted_def move_castled_def move_captured_def ebind_eq_Inr castle_squares_def)
  from castle [OF mc cs a] show ?thesis .
next
  case LONG_CASTLE_MOVE
  then have mc: "move_castled move" by (simp add: move_castled_def)
  obtain kf kt rf rt where cs: "castle_squares cur_side (move_flag move) = (kf, kt, rf, rt)"
    by (metis prod_cases4)
  from assms LONG_CASTLE_MOVE cs obtain b1 b2 where
    a: "move_piece T b kf kt = Inr b1" "move_piece T b1 rf rt = Inr b2"
      "b' = set_en_passant T (set_castle_state T b2
              (m_castle_state b2 AND NOT (if cur_side = WHITE then WHITE_LONG OR WHITE_SHORT
                                          else BLACK_LONG OR BLACK_SHORT))) INVALID_SQUARE"
    by (cases "cur_side = WHITE") (auto simp: apply_move_def Let_def move_promoted_def move_castled_def move_captured_def ebind_eq_Inr castle_squares_def)
  from castle [OF mc cs a] show ?thesis .
next
  case PROMOTE_MOVE
  with assms obtain b1 b2 where
    a: "add_piece T b (move_to move) (promoted_piece move) = Inr b1"
      "remove_piece T b1 (move_from move) = Inr b2"
      "b' = set_en_passant T b2 INVALID_SQUARE"
    by (auto simp: apply_move_def Let_def move_promoted_def move_castled_def move_captured_def ebind_eq_Inr)
  from promote [OF PROMOTE_MOVE a] show ?thesis .
next
  case PROMOTE_CAPTURE_MOVE
  with assms obtain b0 b1 b2 where
    a: "remove_piece T b (move_to move) = Inr b0"
      "add_piece T b0 (move_to move) (promoted_piece move) = Inr b1"
      "remove_piece T b1 (move_from move) = Inr b2"
      "b' = set_en_passant T b2 INVALID_SQUARE"
    by (auto simp: apply_move_def Let_def move_promoted_def move_castled_def move_captured_def ebind_eq_Inr)
  from promote_capture [OF PROMOTE_CAPTURE_MOVE a] show ?thesis .
qed

text \<open>The same for \<open>undo_move\<close>.\<close>

lemma undo_move_cases:
  assumes "undo_move T b move cur_side = Inr b'"
  obtains
    (promote) b1 where "move_flag move = PROMOTE_MOVE"
      "remove_piece T b (move_to move) = Inr b1"
      "add_piece T b1 (move_from move) (moved_piece move) = Inr b'"
  | (promote_capture) b1 b2 where "move_flag move = PROMOTE_CAPTURE_MOVE"
      "remove_piece T b (move_to move) = Inr b1"
      "add_piece T b1 (move_from move) (moved_piece move) = Inr b2"
      "add_piece T b2 (move_to move) (captured_piece move) = Inr b'"
  | (castle) kf kt rf rt b1 where "move_castled move"
      "castle_squares cur_side (move_flag move) = (kf, kt, rf, rt)"
      "move_piece T b kt kf = Inr b1" "move_piece T b1 rt rf = Inr b'"
  | (plain) "move_flag move = QUIET_MOVE \<or> move_flag move = DOUBLE_PAWN_MOVE"
      "move_piece T b (move_to move) (move_from move) = Inr b'"
  | (capture) b1 where "move_flag move = CAPTURE_MOVE"
      "move_piece T b (move_to move) (move_from move) = Inr b1"
      "add_piece T b1 (move_to move) (captured_piece move) = Inr b'"
  | (en_passant) b1 where "move_flag move = EN_PASSANT_MOVE"
      "move_piece T b (move_to move) (move_from move) = Inr b1"
      "add_piece T b1 (if cur_side = WHITE then m_en_passant b1 - 10 else m_en_passant b1 + 10)
         (captured_piece move) = Inr b'"
proof (cases "move_flag move")
  case QUIET_MOVE
  with assms have a: "move_piece T b (move_to move) (move_from move) = Inr b'"
    by (auto simp: undo_move_def Let_def move_promoted_def move_castled_def move_captured_def ebind_eq_Inr)
  from QUIET_MOVE have "move_flag move = QUIET_MOVE \<or> move_flag move = DOUBLE_PAWN_MOVE"
    by simp
  from plain [OF this a] show ?thesis .
next
  case DOUBLE_PAWN_MOVE
  with assms have a: "move_piece T b (move_to move) (move_from move) = Inr b'"
    by (auto simp: undo_move_def Let_def move_promoted_def move_castled_def move_captured_def ebind_eq_Inr)
  from DOUBLE_PAWN_MOVE
  have "move_flag move = QUIET_MOVE \<or> move_flag move = DOUBLE_PAWN_MOVE"
    by simp
  from plain [OF this a] show ?thesis .
next
  case CAPTURE_MOVE
  with assms obtain b1 where
    a: "move_piece T b (move_to move) (move_from move) = Inr b1"
      "add_piece T b1 (move_to move) (captured_piece move) = Inr b'"
    by (auto simp: undo_move_def Let_def move_promoted_def move_castled_def move_captured_def ebind_eq_Inr)
  from capture [OF CAPTURE_MOVE a] show ?thesis .
next
  case EN_PASSANT_MOVE
  with assms obtain b1 where
    a: "move_piece T b (move_to move) (move_from move) = Inr b1"
      "add_piece T b1 (if cur_side = WHITE then m_en_passant b1 - 10 else m_en_passant b1 + 10)
         (captured_piece move) = Inr b'"
    by (auto simp: undo_move_def Let_def move_promoted_def move_castled_def move_captured_def ebind_eq_Inr)
  from en_passant [OF EN_PASSANT_MOVE a] show ?thesis .
next
  case SHORT_CASTLE_MOVE
  then have mc: "move_castled move" by (simp add: move_castled_def)
  obtain kf kt rf rt where cs: "castle_squares cur_side (move_flag move) = (kf, kt, rf, rt)"
    by (metis prod_cases4)
  from assms SHORT_CASTLE_MOVE cs obtain b1 where
    a: "move_piece T b kt kf = Inr b1" "move_piece T b1 rt rf = Inr b'"
    by (cases "cur_side = WHITE") (auto simp: undo_move_def Let_def move_promoted_def move_castled_def move_captured_def ebind_eq_Inr castle_squares_def)
  from castle [OF mc cs a] show ?thesis .
next
  case LONG_CASTLE_MOVE
  then have mc: "move_castled move" by (simp add: move_castled_def)
  obtain kf kt rf rt where cs: "castle_squares cur_side (move_flag move) = (kf, kt, rf, rt)"
    by (metis prod_cases4)
  from assms LONG_CASTLE_MOVE cs obtain b1 where
    a: "move_piece T b kt kf = Inr b1" "move_piece T b1 rt rf = Inr b'"
    by (cases "cur_side = WHITE") (auto simp: undo_move_def Let_def move_promoted_def move_castled_def move_captured_def ebind_eq_Inr castle_squares_def)
  from castle [OF mc cs a] show ?thesis .
next
  case PROMOTE_MOVE
  with assms obtain b1 where
    a: "remove_piece T b (move_to move) = Inr b1"
      "add_piece T b1 (move_from move) (moved_piece move) = Inr b'"
    by (auto simp: undo_move_def Let_def move_promoted_def move_castled_def move_captured_def ebind_eq_Inr)
  from promote [OF PROMOTE_MOVE a] show ?thesis .
next
  case PROMOTE_CAPTURE_MOVE
  with assms obtain b1 b2 where
    a: "remove_piece T b (move_to move) = Inr b1"
      "add_piece T b1 (move_from move) (moved_piece move) = Inr b2"
      "add_piece T b2 (move_to move) (captured_piece move) = Inr b'"
    by (auto simp: undo_move_def Let_def move_promoted_def move_castled_def move_captured_def ebind_eq_Inr)
  from promote_capture [OF PROMOTE_CAPTURE_MOVE a] show ?thesis .
qed

lemma undo_move_frame:
  assumes "undo_move T b move cur_side = Inr b'"
  shows "m_history b' = m_history b \<and> m_next_move_colour b' = m_next_move_colour b
    \<and> m_castle_state b' = m_castle_state b \<and> m_en_passant b' = m_en_passant b
    \<and> m_fifty_move b' = m_fifty_move b \<and> m_half_move b' = m_half_move b
    \<and> m_move_cache b' = m_move_cache b"
  using assms by (cases rule: undo_move_cases) (simp_all add: prim_frame)

lemma unmake_move_fields:
  assumes "unmake_move T b = Inr b'"
  shows "m_history b \<noteq> []" "m_history b' = butlast (m_history b)"
    "m_next_move_colour b' = (\<not> m_next_move_colour b)"
    "m_castle_state b' = h_castle_state (last (m_history b))"
    "m_en_passant b' = h_en_passant (last (m_history b))"
    "m_fifty_move b' = h_fifty_move (last (m_history b))"
    "m_half_move b' = m_half_move b - 1" "0 < m_half_move b"
    "m_hash b' = h_hash (last (m_history b))"
    "m_move_cache b' = m_move_cache b"
  using assms
  by (auto simp: unmake_move_def Let_def ebind_eq_Inr split: if_splits dest!: undo_move_frame)

lemma double_ok_row:
  assumes "double_ok b side pawn start m"
  shows "get_square_row (if side = WHITE then move_to m - 10 else move_to m + 10)
           = (if side = WHITE then RANK_3 else RANK_6)"
    and "(if side = WHITE then move_to m - 10 else move_to m + 10) \<noteq> INVALID_SQUARE"
  using assms
  by (auto simp: double_ok_def get_square_row_def rank_defs WHITE_def BLACK_def
      INVALID_SQUARE_def)

text \<open>
  What the primitives and \<open>apply_move\<close> do to the piece array.
\<close>

lemma remove_piece_pieces:
  "remove_piece T b sq = Inr b' \<Longrightarrow> m_pieces b' = (m_pieces b)[sq := INVALID_PIECE]"
  by (auto simp: remove_piece_def Let_def split: if_splits)

lemma add_piece_pieces:
  "add_piece T b sq piece = Inr b' \<Longrightarrow> m_pieces b' = (m_pieces b)[sq := piece]"
  by (auto simp: add_piece_def Let_def split: if_splits)

lemma move_piece_pieces:
  "move_piece T b from to = Inr b' \<Longrightarrow>
     m_pieces b' = (m_pieces b)[from := INVALID_PIECE, to := m_pieces b ! from]"
  by (auto simp: move_piece_def Let_def split: if_splits)

lemma castle_squares_distinct:
  "castle_squares cur_side flag = (kf, kt, rf, rt) \<Longrightarrow> rf \<noteq> kf \<and> rf \<noteq> kt"
  by (auto simp: castle_squares_def square_defs split: if_splits)

lemma apply_move_pieces:
  assumes ap: "apply_move T b move cur_side = Inr b'"
    and c: "move_flag move = CAPTURE_MOVE \<longrightarrow> move_from move \<noteq> move_to move"
    and e: "move_flag move = EN_PASSANT_MOVE \<longrightarrow>
              move_from move \<noteq> (if cur_side = WHITE then move_to move - 10 else move_to move + 10)"
  shows "m_pieces b' =
    (case move_flag move of
       QUIET_MOVE \<Rightarrow>
         (m_pieces b)[move_from move := INVALID_PIECE, move_to move := m_pieces b ! move_from move]
     | DOUBLE_PAWN_MOVE \<Rightarrow>
         (m_pieces b)[move_from move := INVALID_PIECE, move_to move := m_pieces b ! move_from move]
     | CAPTURE_MOVE \<Rightarrow>
         (m_pieces b)[move_from move := INVALID_PIECE, move_to move := m_pieces b ! move_from move]
     | EN_PASSANT_MOVE \<Rightarrow>
         (m_pieces b)[(if cur_side = WHITE then move_to move - 10 else move_to move + 10)
                        := INVALID_PIECE,
                      move_from move := INVALID_PIECE,
                      move_to move := m_pieces b ! move_from move]
     | SHORT_CASTLE_MOVE \<Rightarrow>
         (case castle_squares cur_side SHORT_CASTLE_MOVE of (kf, kt, rf, rt) \<Rightarrow>
            (m_pieces b)[kf := INVALID_PIECE, kt := m_pieces b ! kf,
                         rf := INVALID_PIECE, rt := m_pieces b ! rf])
     | LONG_CASTLE_MOVE \<Rightarrow>
         (case castle_squares cur_side LONG_CASTLE_MOVE of (kf, kt, rf, rt) \<Rightarrow>
            (m_pieces b)[kf := INVALID_PIECE, kt := m_pieces b ! kf,
                         rf := INVALID_PIECE, rt := m_pieces b ! rf])
     | PROMOTE_MOVE \<Rightarrow>
         (m_pieces b)[move_to move := promoted_piece move, move_from move := INVALID_PIECE]
     | PROMOTE_CAPTURE_MOVE \<Rightarrow>
         (m_pieces b)[move_to move := promoted_piece move, move_from move := INVALID_PIECE])"
  using ap
proof (cases rule: apply_move_cases)
  case (promote b1 b2)
  then show ?thesis
    by (simp add: add_piece_pieces [OF promote(2)] remove_piece_pieces [OF promote(3)])
next
  case (promote_capture b0 b1 b2)
  then show ?thesis
    by (simp add: remove_piece_pieces [OF promote_capture(2)]
        add_piece_pieces [OF promote_capture(3)] remove_piece_pieces [OF promote_capture(4)])
next
  case (castle kf kt rf rt b1 b2)
  note d = castle_squares_distinct [OF castle(2)]
  have "m_pieces b' = (m_pieces b)[kf := INVALID_PIECE, kt := m_pieces b ! kf,
                         rf := INVALID_PIECE, rt := m_pieces b ! rf]"
    using d by (simp add: castle(5) move_piece_pieces [OF castle(3)]
        move_piece_pieces [OF castle(4)])
  with castle(1,2) show ?thesis
    by (auto simp: move_castled_def)
next
  case (quiet b1)
  then show ?thesis
    by (simp add: move_piece_pieces [OF quiet(2)])
next
  case double
  then show ?thesis
    by (simp add: move_piece_pieces [OF double(2)])
next
  case (capture b1 b2)
  from c capture(1) have n: "move_from move \<noteq> move_to move" by simp
  have "m_pieces b' = (m_pieces b)[move_to move := INVALID_PIECE,
      move_from move := INVALID_PIECE, move_to move := m_pieces b ! move_from move]"
    using n by (simp add: capture(4) remove_piece_pieces [OF capture(2)]
        move_piece_pieces [OF capture(3)])
  also have "\<dots> = (m_pieces b)[move_from move := INVALID_PIECE,
      move_to move := m_pieces b ! move_from move]"
    using n by (simp add: list_update_swap [of "move_to move" "move_from move"])
  finally show ?thesis using capture(1) by simp
next
  case (en_passant b1)
  from e en_passant(1) have n: "move_from move \<noteq>
      (if cur_side = WHITE then move_to move - 10 else move_to move + 10)" by simp
  show ?thesis
    using n by (simp add: en_passant(1) remove_piece_pieces [OF en_passant(2)]
        move_piece_pieces [OF en_passant(3)])
qed

text \<open>
  Where the fields of a FEN string lie: the placement and the castling letters run up
  to the next space, so the en-passant field is what follows the space after the castling
  field.
\<close>

lemma parse_board_rest:
  "parse_board (p @ CHR '' '' # r) sq b = Inr (s, sq', b') \<Longrightarrow> CHR '' '' \<notin> set p \<Longrightarrow>
     s = CHR '' '' # r"
proof (induction p arbitrary: sq b)
  case Nil
  then show ?case by simp
next
  case (Cons c p)
  from Cons.prems show ?case
    by (auto simp: Let_def split: if_splits dest: Cons.IH)
qed

lemma parse_castle_rest:
  "parse_castle (p @ CHR '' '' # r) c = Inr (s, c') \<Longrightarrow> CHR '' '' \<notin> set p \<Longrightarrow>
     s = CHR '' '' # r"
proof (induction p arbitrary: c)
  case Nil
  then show ?case by simp
next
  case (Cons x p)
  from Cons.prems show ?case
    by (auto split: if_splits dest: Cons.IH)
qed

lemma castle_field_rest:
  assumes "(case castle @ CHR '' '' # eps of
              [] \<Rightarrow> Inl FenParseError
            | c # rest \<Rightarrow> if c = CHR ''-'' then Inr (rest, 0)
                          else parse_castle (castle @ CHR '' '' # eps) 0) = Inr (s, cst)"
    and "CHR '' '' \<notin> set castle" and "s \<noteq> [] \<and> hd s = CHR '' ''"
  shows "tl s = eps"
proof (cases castle)
  case Nil
  with assms show ?thesis by auto
next
  case (Cons c cs)
  show ?thesis
  proof (cases "c = CHR ''-''")
    case True
    with assms Cons have s: "s = cs @ CHR '' '' # eps" by auto
    with assms(2,3) Cons have "cs = []" by (cases cs) auto
    with s show ?thesis by simp
  next
    case False
    with assms(1) Cons have "parse_castle (castle @ CHR '' '' # eps) 0 = Inr (s, cst)"
      by simp
    from parse_castle_rest [OF this assms(2)] show ?thesis by simp
  qed
qed

lemma parse_fen_en_passant:
  assumes pf: "parse_fen T (placement @ CHR '' '' # side_chr # sep # castle @ CHR '' '' # eps)
                 = Inr b"
    and sp: "CHR '' '' \<notin> set placement" "CHR '' '' \<notin> set castle"
  shows "\<exists>b0 s'. parse_en_passant eps b0 = Inr (s', b0\<lparr>m_en_passant := m_en_passant b\<rparr>)
           \<and> m_next_move_colour b0 = m_next_move_colour b"
proof -
  let ?f = "placement @ CHR '' '' # side_chr # sep # castle @ CHR '' '' # eps"
  from pf obtain s0 b0 where pb: "parse_board ?f A8 empty_board = Inr (s0, 29, b0)"
    by (auto simp: parse_fen_def ebind_eq_Inr split: if_splits)
  from parse_board_rest [OF pb sp(1)]
  have s0: "s0 = CHR '' '' # side_chr # sep # castle @ CHR '' '' # eps" .
  let ?b1 = "b0\<lparr>m_next_move_colour := (if side_chr = CHR ''w'' then WHITE else BLACK)\<rparr>"
  from pf pb s0 obtain s3 cst where
    cs: "(case castle @ CHR '' '' # eps of
              [] \<Rightarrow> Inl FenParseError
            | c # rest \<Rightarrow> if c = CHR ''-'' then Inr (rest, 0)
                          else parse_castle (castle @ CHR '' '' # eps) 0) = Inr (s3, cst)"
    and hd: "s3 \<noteq> [] \<and> hd s3 = CHR '' ''"
    and rest: "ebind (parse_en_passant (tl s3) (?b1\<lparr>m_castle_state := cst\<rparr>))
                 (\<lambda>(s, b).
                    if \<not> (s \<noteq> [] \<and> hd s = CHR '' '') then Inl FenParseError
                    else
                      ebind (parse_fifty (tl s) 0) (\<lambda>(s, fifty).
                      ebind (parse_full (tl s) 0) (\<lambda>full_move.
                        let b = b\<lparr>m_fifty_move := unat fifty,
                                   m_half_move := unat (2 * full_move
                                     + (if m_next_move_colour b then 1 else 0))\<rparr>
                        in ebind (compute_hash T b) (\<lambda>h.
                             Inr (b\<lparr>m_hash := h\<rparr>))))) = Inr b"
    by (auto simp: parse_fen_def ebind_eq_Inr Let_def split: if_splits)
  from castle_field_rest [OF cs sp(2) hd] have t: "tl s3 = eps" .
  from rest obtain s4 b2 where
    ep: "parse_en_passant eps (?b1\<lparr>m_castle_state := cst\<rparr>) = Inr (s4, b2)" and
    b: "m_en_passant b = m_en_passant b2" "m_next_move_colour b = m_next_move_colour b2"
    unfolding t
    by (auto simp: ebind_eq_Inr Let_def split: if_splits)
  from ep obtain e where b2: "b2 = ?b1\<lparr>m_castle_state := cst, m_en_passant := e\<rparr>"
    by (auto simp: parse_en_passant_def Let_def split: list.splits if_splits)
  show ?thesis
    using ep unfolding b b2
    by (intro exI [of _ "?b1\<lparr>m_castle_state := cst\<rparr>"] exI [of _ s4]) simp
qed

text \<open>
  The characters of the en-passant field and the square they name.
\<close>

lemma char_value_eq:
  assumes "char_value c = of_nat n" and "n < 128"
  shows "c = char_of n"
proof -
  let ?k = "of_char c :: nat"
  have k: "?k < 256" by simp
  have w: "(of_char c :: 32 word) = of_nat ?k" by (rule of_nat_of_char [symmetric])
  show ?thesis
  proof (cases "?k < 128")
    case True
    with assms have "(of_char c :: 32 word) = of_nat n"
      by (simp add: char_value_def)
    then have "(of_nat ?k :: 32 word) = of_nat n" unfolding w .
    then have "unat (of_nat ?k :: 32 word) = unat (of_nat n :: 32 word)" by simp
    with True assms(2) have "?k = n"
      by (simp add: unat_of_nat take_bit_nat_eq_self)
    then have "char_of ?k = char_of n" by simp
    then show ?thesis by simp
  next
    case False
    with assms have "(of_char c :: 32 word) - 256 = of_nat n"
      by (simp add: char_value_def)
    then have "(of_nat ?k :: 32 word) = of_nat n + 256" unfolding w by (simp add: diff_eq_eq)
    then have "(of_nat ?k :: 32 word) = of_nat (n + 256)" by simp
    then have "unat (of_nat ?k :: 32 word) = unat (of_nat (n + 256) :: 32 word)" by simp
    moreover have "?k < 2 ^ 32" using k by (rule less_trans) simp
    then have "unat (of_nat ?k :: 32 word) = ?k"
      by (simp add: unat_of_nat take_bit_nat_eq_self del: of_nat_add of_nat_mult)
    moreover have "n + 256 < 2 ^ 32" using assms(2) by simp
    then have "unat (of_nat (n + 256) :: 32 word) = n + 256"
      by (simp add: unat_of_nat take_bit_nat_eq_self del: of_nat_add of_nat_mult)
    ultimately have "?k = n + 256" by simp
    with k show ?thesis by simp
  qed
qed

lemma char_of_eqI: "(of_char c :: nat) = n \<Longrightarrow> c = char_of n"
proof -
  assume "(of_char c :: nat) = n"
  then have "char_of (of_char c :: nat) = char_of n" by simp
  then show ?thesis by simp
qed

lemma char_value_file:
  assumes "c0 \<in> set ''abcdefgh''"
  shows "\<exists>k\<le>7. char_value c0 - char_value CHR ''a'' = of_nat k \<and> c0 = char_of (97 + k)"
proof -
  from assms consider "c0 = CHR ''a''" | "c0 = CHR ''b''" | "c0 = CHR ''c''" | "c0 = CHR ''d''"
    | "c0 = CHR ''e''" | "c0 = CHR ''f''" | "c0 = CHR ''g''" | "c0 = CHR ''h''"
    by auto
  then show ?thesis
  proof cases
    case 1 then show ?thesis by (intro exI [of _ 0]) (simp add: char_value_def char_of_eqI)
  next
    case 2 then show ?thesis by (intro exI [of _ 1]) (simp add: char_value_def char_of_eqI)
  next
    case 3 then show ?thesis by (intro exI [of _ 2]) (simp add: char_value_def char_of_eqI)
  next
    case 4 then show ?thesis by (intro exI [of _ 3]) (simp add: char_value_def char_of_eqI)
  next
    case 5 then show ?thesis by (intro exI [of _ 4]) (simp add: char_value_def char_of_eqI)
  next
    case 6 then show ?thesis by (intro exI [of _ 5]) (simp add: char_value_def char_of_eqI)
  next
    case 7 then show ?thesis by (intro exI [of _ 6]) (simp add: char_value_def char_of_eqI)
  next
    case 8 then show ?thesis by (intro exI [of _ 7]) (simp add: char_value_def char_of_eqI)
  qed
qed

lemma get_square_120_rc_small:
  assumes "r \<le> 7" "k \<le> 7"
  shows "get_square_120_rc (of_nat r) (of_nat k) = 21 + 10 * r + k"
proof -
  have e: "(21 + 10 * of_nat r + of_nat k :: 32 word) = of_nat (21 + 10 * r + k)"
    by simp
  have "21 + 10 * r + k < 2 ^ 32" using assms by simp
  then have "unat (of_nat (21 + 10 * r + k) :: 32 word) = 21 + 10 * r + k"
    by (simp add: unat_of_nat take_bit_nat_eq_self del: of_nat_add of_nat_mult)
  then show ?thesis
    unfolding get_square_120_rc_def e .
qed

lemma parse_en_passant_result:
  assumes "parse_en_passant (c0 # c1 # rest) b = Inr (s', b')"
  shows "c0 = CHR ''-'' \<Longrightarrow> m_en_passant b' = INVALID_SQUARE"
    and "c0 \<noteq> CHR ''-'' \<Longrightarrow>
           c1 = (if m_next_move_colour b = WHITE then CHR ''6'' else CHR ''3'')"
    and "c0 \<noteq> CHR ''-'' \<Longrightarrow>
           m_en_passant b' = INVALID_SQUARE
           \<or> m_en_passant b' = get_square_120_rc
                (of_nat (if m_next_move_colour b = WHITE then RANK_6 else RANK_3))
                (char_value c0 - char_value CHR ''a'')"
proof -
  show "c0 = CHR ''-'' \<Longrightarrow> m_en_passant b' = INVALID_SQUARE"
    using assms by (auto simp: parse_en_passant_def)
  have one: "char_value CHR ''1'' = 49" by (simp add: char_value_def)
  {
    assume n: "c0 \<noteq> CHR ''-''"
    let ?row = "char_value c1 - char_value CHR ''1''"
    let ?R = "if m_next_move_colour b = WHITE then RANK_6 else RANK_3"
    from assms n have row: "?row = of_nat ?R"
      unfolding parse_en_passant_def Let_def
      by (cases "m_next_move_colour b = WHITE") (auto simp: WHITE_def BLACK_def split: if_splits)
    then have "char_value c1 = of_nat (49 + ?R)"
      unfolding one by (simp add: diff_eq_eq)
    moreover have "49 + ?R < 128" by (simp add: rank_defs)
    ultimately have "c1 = char_of (49 + ?R)" by (rule char_value_eq)
    then show "c1 = (if m_next_move_colour b = WHITE then CHR ''6'' else CHR ''3'')"
      by (simp add: rank_defs char_of_eqI [symmetric])
    from assms n row
    show "m_en_passant b' = INVALID_SQUARE
           \<or> m_en_passant b' = get_square_120_rc (of_nat ?R)
                (char_value c0 - char_value CHR ''a'')"
      unfolding parse_en_passant_def Let_def
      by (auto split: if_splits)
  }
qed

lemma named_square:
  assumes "c0 \<in> set ''abcdefgh''" and "R = RANK_6 \<or> R = RANK_3"
  shows "valid_square (get_square_120_rc (of_nat R) (char_value c0 - char_value CHR ''a''))
     \<and> get_square_row (get_square_120_rc (of_nat R) (char_value c0 - char_value CHR ''a'')) = R
     \<and> string_from_square (get_square_120_rc (of_nat R) (char_value c0 - char_value CHR ''a''))
         = [c0, if R = RANK_6 then CHR ''6'' else CHR ''3'']"
proof -
  from char_value_file [OF assms(1)] obtain k where k: "k \<le> 7"
    "char_value c0 - char_value CHR ''a'' = of_nat k" "c0 = char_of (97 + k)"
    by blast
  have R: "R \<le> 7" using assms(2) by (auto simp: rank_defs)
  have e: "get_square_120_rc (of_nat R) (char_value c0 - char_value CHR ''a'') = 21 + 10 * R + k"
    unfolding k(2) by (rule get_square_120_rc_small [OF R k(1)])
  have d: "21 + 10 * R + k = (1 + k) + (2 + R) * 10" by simp
  have "((1 + k) + (2 + R) * 10) mod 10 = (1 + k) mod 10" by (rule mod_mult_self1)
  moreover have "((1 + k) + (2 + R) * 10) div 10 = (2 + R) + (1 + k) div 10"
    by (rule div_mult_self1) simp
  ultimately have m: "(21 + 10 * R + k) mod 10 = 1 + k" "(21 + 10 * R + k) div 10 = 2 + R"
    unfolding d using k(1) by simp_all
  have c: "char_of (54::nat) = CHR ''6''" "char_of (51::nat) = CHR ''3''"
    by (simp_all add: char_of_eqI [symmetric])
  show ?thesis
    unfolding e
    using k(1) assms(2) m c
    by (auto simp: valid_square_def get_square_row_def string_from_square_def k(3)
        INVALID_SQUARE_def rank_defs)
qed

section \<open>C5: when a castle move is emitted\<close>

text \<open>
  The claim as stated fails on the king's destination square: in
  \<open>4k1r1/8/8/8/8/8/8/4K2R w K - 0 1\<close> the black rook attacks g1, and \<open>pseudo_moves\<close> still
  emits the short castle of the white king to g1.
\<close>

theorem castle_moves_conditions_cex:
  "(case parse_fen example_tables ''4k1r1/8/8/8/8/8/8/4K2R w K - 0 1'' of
      Inl e \<Rightarrow> False
    | Inr b \<Rightarrow>
        (case pseudo_moves b None of
           Inl e \<Rightarrow> False
         | Inr (ms, b1) \<Rightarrow>
             castle_move E1 G1 WHITE_KING SHORT_CASTLE_MOVE \<in> set ms
             \<and> square_attacked b G1 BLACK = Inr True))"
  by code_simp

text \<open>
  C5 (amended). When \<open>pseudo_moves\<close> computes its list (no cache entry for the current
  hash), every castle move in it satisfies \<open>castle_ok\<close>: it is the castle move of the side
  the list is for, the corresponding castle-right bit is set, the squares between king
  and rook are empty (on the queenside also the b-file square), and neither the king's
  origin square nor the square it crosses is attacked by the opponent. Whether the
  destination square is attacked is not tested by \<open>pseudo_moves\<close>.
\<close>

theorem castle_moves_conditions:
  assumes "pseudo_moves b side_arg = Inr (ms, b')" and "m_move_cache b (m_hash b) = None"
    and "m \<in> set ms" and "move_castled m"
  shows "castle_ok b (case side_arg of Some s \<Rightarrow> s | None \<Rightarrow> m_next_move_colour b) m"
  using pseudo_ok_castled [OF generate_moves_ok [OF pseudo_moves_miss(1) [OF assms(1-3)] assms(3)]
      assms(4)] .

text \<open>The theorem at the long castle of White in a position with all four rights.\<close>

theorem castle_moves_conditions_witness:
  "\<exists>b ms b'. parse_fen example_tables ''r3k2r/8/8/8/8/8/8/R3K2R w KQkq - 0 1'' = Inr b
     \<and> pseudo_moves b None = Inr (ms, b')
     \<and> castle_move E1 C1 WHITE_KING LONG_CASTLE_MOVE \<in> set ms
     \<and> move_castled (castle_move E1 C1 WHITE_KING LONG_CASTLE_MOVE)
     \<and> castle_ok b WHITE (castle_move E1 C1 WHITE_KING LONG_CASTLE_MOVE)"
proof -
  let ?m = "castle_move E1 C1 WHITE_KING LONG_CASTLE_MOVE"
  have run: "(case parse_fen example_tables ''r3k2r/8/8/8/8/8/8/R3K2R w KQkq - 0 1'' of
               Inl e \<Rightarrow> False
             | Inr b \<Rightarrow> m_move_cache b (m_hash b) = None \<and> m_next_move_colour b = WHITE
                 \<and> (case pseudo_moves b None of Inl e \<Rightarrow> False
                    | Inr (ms, b') \<Rightarrow> ?m \<in> set ms))"
    by code_simp
  have mc: "move_castled ?m"
    by (simp add: move_castled_def castle_move_def)
  from run obtain b where
    pf: "parse_fen example_tables ''r3k2r/8/8/8/8/8/8/R3K2R w KQkq - 0 1'' = Inr b" and
    miss: "m_move_cache b (m_hash b) = None" and col: "m_next_move_colour b = WHITE" and
    r: "(case pseudo_moves b None of Inl e \<Rightarrow> False | Inr (ms, b') \<Rightarrow> ?m \<in> set ms)"
    by (cases "parse_fen example_tables ''r3k2r/8/8/8/8/8/8/R3K2R w KQkq - 0 1''") auto
  from r obtain ms b' where pm: "pseudo_moves b None = Inr (ms, b')" and mem: "?m \<in> set ms"
    by (cases "pseudo_moves b None") auto
  from castle_moves_conditions [OF pm miss mem mc] col pf pm mem mc show ?thesis
    by auto
qed

section \<open>C2: the stored hash and the full recomputation\<close>

text \<open>
  What \<open>compute_hash\<close> asserts about the tables, and the spec requires of them: an
  identifier that is no valid piece hashes to zero on every square, and so does
  \<open>INVALID_SQUARE\<close> in the en-passant table.
\<close>

definition hash_tables_ok :: "hash_tables \<Rightarrow> bool" where
  "hash_tables_ok T \<longleftrightarrow>
     (\<forall>sq p. \<not> valid_piece p \<longrightarrow> piece_hash T sq p = 0) \<and> enpas_hash T INVALID_SQUARE = 0"

text \<open>The XOR over the squares of a list, and the value \<open>compute_hash\<close> returns.\<close>

fun xor_squares :: "hash_tables \<Rightarrow> piece_t list \<Rightarrow> square_t list \<Rightarrow> hash_t" where
  "xor_squares T ps [] = 0"
| "xor_squares T ps (sq # sqs) = piece_hash T sq (ps ! sq) XOR xor_squares T ps sqs"

definition full_zobrist :: "hash_tables \<Rightarrow> board \<Rightarrow> hash_t" where
  "full_zobrist T b =
     xor_squares T (m_pieces b) [0..<120] XOR castle_hash T (unat (m_castle_state b))
       XOR enpas_hash T (m_en_passant b)
       XOR (if m_next_move_colour b then side_hash T else 0)"

lemmas xor_ac = xor.assoc xor.commute xor.left_commute

lemma hash_squares_Inr:
  "hash_squares T ps sqs res = Inr h \<Longrightarrow>
     (\<forall>sq \<in> set sqs. ps ! sq < 16) \<and> h = res XOR xor_squares T ps sqs"
proof (induction sqs arbitrary: res)
  case Nil
  then show ?case by simp
next
  case (Cons a sqs)
  from Cons.prems have lt: "ps ! a < 16" and
    r: "hash_squares T ps sqs (res XOR piece_hash T a (ps ! a)) = Inr h"
    by (auto simp: Let_def split: if_splits)
  from Cons.IH [OF r] lt show ?case
    by (simp add: xor_ac)
qed

lemma hash_squares_ok:
  "hash_tables_ok T \<Longrightarrow> \<forall>sq \<in> set sqs. ps ! sq < 16 \<Longrightarrow>
     hash_squares T ps sqs res = Inr (res XOR xor_squares T ps sqs)"
proof (induction sqs arbitrary: res)
  case Nil
  then show ?case by simp
next
  case (Cons a sqs)
  from Cons.prems have lt: "ps ! a < 16" and rest: "\<forall>sq \<in> set sqs. ps ! sq < 16" and
    z: "valid_piece (ps ! a) \<or> piece_hash T a (ps ! a) = 0"
    by (auto simp: hash_tables_ok_def)
  from Cons.IH [OF Cons.prems(1) rest, of "res XOR piece_hash T a (ps ! a)"] lt z show ?case
    by (simp add: Let_def xor_ac)
qed

lemma compute_hash_Inr:
  assumes "compute_hash T b = Inr h"
  shows "(\<forall>sq<120. m_pieces b ! sq < 16) \<and> h = full_zobrist T b"
proof -
  from assms obtain r where r: "hash_squares T (m_pieces b) [0..<120] 0 = Inr r"
    and h: "h = r XOR castle_hash T (unat (m_castle_state b))
       XOR enpas_hash T (m_en_passant b)
       XOR (if m_next_move_colour b then side_hash T else 0)"
    by (auto simp: compute_hash_def ebind_eq_Inr Let_def xor.assoc split: if_splits)
  from hash_squares_Inr [OF r] h show ?thesis
    by (auto simp: full_zobrist_def)
qed

lemma compute_hash_ok:
  assumes "hash_tables_ok T" and "\<forall>sq<120. m_pieces b ! sq < 16"
  shows "compute_hash T b = Inr (full_zobrist T b)"
proof -
  have "hash_squares T (m_pieces b) [0..<120] 0 = Inr (0 XOR xor_squares T (m_pieces b) [0..<120])"
    by (rule hash_squares_ok [OF assms(1)]) (use assms(2) in simp)
  with assms(1) show ?thesis
    by (simp add: compute_hash_def full_zobrist_def Let_def hash_tables_ok_def xor.assoc)
qed

lemma xor_squares_update_notin:
  "sq \<notin> set sqs \<Longrightarrow> xor_squares T (ps[sq := p]) sqs = xor_squares T ps sqs"
  by (induction sqs) auto

lemma xor_squares_update:
  "distinct sqs \<Longrightarrow> sq \<in> set sqs \<Longrightarrow> sq < length ps \<Longrightarrow>
     xor_squares T (ps[sq := p]) sqs
       = xor_squares T ps sqs XOR piece_hash T sq (ps ! sq) XOR piece_hash T sq p"
proof (induction sqs)
  case Nil
  then show ?case by simp
next
  case (Cons a sqs)
  show ?case
  proof (cases "a = sq")
    case True
    with Cons.prems show ?thesis
      by (simp add: xor_squares_update_notin xor_ac)
  next
    case False
    with Cons show ?thesis
      by (simp add: xor_ac)
  qed
qed

lemma xor_board_update:
  assumes "sq < 120" and "length ps = 120"
  shows "xor_squares T (ps[sq := p]) [0..<120]
       = xor_squares T ps [0..<120] XOR piece_hash T sq (ps ! sq) XOR piece_hash T sq p"
  by (rule xor_squares_update) (use assms in simp_all)

text \<open>
  The invariant carried through the operations: the array has its 120 cells, every cell
  holds an identifier below 16, and the stored hash is the recomputed one.
\<close>

definition hash_inv :: "hash_tables \<Rightarrow> board \<Rightarrow> bool" where
  "hash_inv T b \<longleftrightarrow>
     length (m_pieces b) = 120 \<and> (\<forall>sq<120. m_pieces b ! sq < 16) \<and> m_hash b = full_zobrist T b"

lemma hash_inv_compute:
  "hash_tables_ok T \<Longrightarrow> hash_inv T b \<Longrightarrow> compute_hash T b = Inr (m_hash b)"
  by (simp add: hash_inv_def compute_hash_ok)

lemma invalid_piece_hash: "hash_tables_ok T \<Longrightarrow> piece_hash T sq INVALID_PIECE = 0"
  by (simp add: hash_tables_ok_def valid_piece_def INVALID_PIECE_def)

lemma valid_piece_lt: "valid_piece p \<Longrightarrow> p < 16"
  by (simp add: valid_piece_def)

lemma remove_piece_hash_inv:
  assumes ok: "hash_tables_ok T" and inv: "hash_inv T b" and sq: "sq < 120"
    and rm: "remove_piece T b sq = Inr b'"
  shows "hash_inv T b'"
proof -
  from rm have b': "m_pieces b' = (m_pieces b)[sq := INVALID_PIECE]"
    "m_hash b' = m_hash b XOR piece_hash T sq (m_pieces b ! sq)"
    by (auto simp: remove_piece_def Let_def split: if_splits)
  from inv have len: "length (m_pieces b) = 120" and lt: "\<forall>sq<120. m_pieces b ! sq < 16"
    and h: "m_hash b = full_zobrist T b"
    by (simp_all add: hash_inv_def)
  have "\<forall>s<120. m_pieces b' ! s < 16"
    using lt len sq by (auto simp: b' nth_list_update INVALID_PIECE_def)
  moreover have "m_hash b' = full_zobrist T b'"
    unfolding full_zobrist_def b' h remove_piece_frame [OF rm] xor_board_update [OF sq len]
    by (simp add: invalid_piece_hash [OF ok] xor_ac)
  ultimately show ?thesis
    using len by (simp add: hash_inv_def b')
qed

lemma add_piece_hash_inv:
  assumes ok: "hash_tables_ok T" and inv: "hash_inv T b" and sq: "sq < 120"
    and ad: "add_piece T b sq piece = Inr b'"
  shows "hash_inv T b'"
proof -
  from ad have b': "m_pieces b' = (m_pieces b)[sq := piece]"
    "m_hash b' = m_hash b XOR piece_hash T sq piece" and
    old: "m_pieces b ! sq = INVALID_PIECE" and vp: "valid_piece piece"
    by (auto simp: add_piece_def Let_def split: if_splits)
  from inv have len: "length (m_pieces b) = 120" and lt: "\<forall>sq<120. m_pieces b ! sq < 16"
    and h: "m_hash b = full_zobrist T b"
    by (simp_all add: hash_inv_def)
  have "\<forall>s<120. m_pieces b' ! s < 16"
    using lt len sq valid_piece_lt [OF vp] by (auto simp: b' nth_list_update)
  moreover have "m_hash b' = full_zobrist T b'"
    unfolding full_zobrist_def b' h add_piece_frame [OF ad] xor_board_update [OF sq len] old
    by (simp add: invalid_piece_hash [OF ok] xor_ac)
  ultimately show ?thesis
    using len by (simp add: hash_inv_def b')
qed

lemma move_piece_hash_inv:
  assumes ok: "hash_tables_ok T" and inv: "hash_inv T b" and sq: "from < 120" "to < 120"
    and mv: "move_piece T b from to = Inr b'"
  shows "hash_inv T b'"
proof -
  let ?p = "m_pieces b ! from"
  from mv have b': "m_pieces b' = (m_pieces b)[from := INVALID_PIECE, to := ?p]"
    "m_hash b' = m_hash b XOR (piece_hash T from ?p XOR piece_hash T to ?p)" and
    old: "m_pieces b ! to = INVALID_PIECE"
    by (auto simp: move_piece_def Let_def split: if_splits)
  from inv have len: "length (m_pieces b) = 120" and lt: "\<forall>sq<120. m_pieces b ! sq < 16"
    and h: "m_hash b = full_zobrist T b"
    by (simp_all add: hash_inv_def)
  have len1: "length ((m_pieces b)[from := INVALID_PIECE]) = 120"
    using len by simp
  have at_to: "(m_pieces b)[from := INVALID_PIECE] ! to = INVALID_PIECE"
    using old len sq by (simp add: nth_list_update)
  have "\<forall>s<120. m_pieces b' ! s < 16"
    using lt len sq by (auto simp: b' nth_list_update INVALID_PIECE_def)
  moreover have "m_hash b' = full_zobrist T b'"
    unfolding full_zobrist_def b' h move_piece_frame [OF mv] xor_board_update [OF sq(2) len1]
      xor_board_update [OF sq(1) len] at_to
    by (simp add: invalid_piece_hash [OF ok] xor_ac)
  ultimately show ?thesis
    using len by (simp add: hash_inv_def b')
qed

lemma xor_cancel_right: "(a XOR d = c XOR d) = (a = c)" for a :: hash_t
proof
  assume "a XOR d = c XOR d"
  then have "(a XOR d) XOR d = (c XOR d) XOR d" by simp
  then show "a = c" by (simp add: xor.assoc)
qed simp

lemma hash_inv_delta:
  assumes "m_pieces b' = m_pieces b" and "m_hash b' = m_hash b XOR d"
    and "full_zobrist T b' = full_zobrist T b XOR d"
  shows "hash_inv T b' = hash_inv T b"
  unfolding hash_inv_def assms by (simp add: xor_cancel_right)

lemma set_en_passant_hash_inv [simp]:
  "hash_inv T (set_en_passant T b sq) = hash_inv T b"
  by (rule hash_inv_delta [where d = "enpas_hash T (m_en_passant b) XOR enpas_hash T sq"])
    (simp_all add: full_zobrist_def set_en_passant_def xor_ac)

lemma set_castle_state_hash_inv [simp]:
  "hash_inv T (set_castle_state T b c) = hash_inv T b"
  by (rule hash_inv_delta [where d = "castle_hash T (unat (m_castle_state b))
        XOR castle_hash T (unat c)"])
    (simp_all add: full_zobrist_def set_castle_state_def xor_ac)

lemma update_castling_hash_inv [simp]:
  "hash_inv T (update_castling T b sq moved) = hash_inv T b"
proof (cases "is_castle moved")
  case True
  show ?thesis
    by (rule hash_inv_delta [where d = "castle_hash T (unat (m_castle_state b))
          XOR castle_hash T (unat (strip_castling sq (m_castle_state b)))"])
      (simp_all add: True full_zobrist_def update_castling_def Let_def xor_ac)
next
  case False
  then show ?thesis by (simp add: update_castling_def)
qed

lemma switch_colours_hash_inv [simp]:
  "hash_inv T (switch_colours T b) = hash_inv T b"
  by (rule hash_inv_delta [where d = "side_hash T"])
    (simp_all add: full_zobrist_def switch_colours_def xor_ac)

lemma hash_inv_clocks [simp]:
  "hash_inv T (b\<lparr>m_fifty_move := n\<rparr>) = hash_inv T b"
  "hash_inv T (b\<lparr>m_half_move := k\<rparr>) = hash_inv T b"
  "hash_inv T (b\<lparr>m_history := hs\<rparr>) = hash_inv T b"
  "hash_inv T (b\<lparr>m_move_cache := c\<rparr>) = hash_inv T b"
  by (simp_all add: hash_inv_def full_zobrist_def)

lemma valid_square_bounds:
  assumes "valid_square sq"
  shows "sq < 120 \<and> sq - 10 < 120 \<and> sq + 10 < 120"
proof -
  from assms have "sq \<le> 98" by (simp add: valid_square_def)
  then show ?thesis by simp
qed

lemma castle_squares_bounds:
  "castle_squares cur_side flag = (kf, kt, rf, rt) \<Longrightarrow>
     kf < 120 \<and> kt < 120 \<and> rf < 120 \<and> rt < 120"
  by (auto simp: castle_squares_def square_defs split: if_splits)

lemma apply_move_hash_inv:
  assumes ok: "hash_tables_ok T" and inv: "hash_inv T b"
    and sq: "valid_square (move_from move)" "valid_square (move_to move)"
    and ap: "apply_move T b move cur_side = Inr b'"
  shows "hash_inv T b'"
proof -
  note bd = valid_square_bounds [OF sq(1)] valid_square_bounds [OF sq(2)]
  note rm = remove_piece_hash_inv [OF ok] and ad = add_piece_hash_inv [OF ok]
    and mv = move_piece_hash_inv [OF ok]
  from ap show ?thesis
  proof (cases rule: apply_move_cases)
    case (promote b1 b2)
    have "hash_inv T b1" using ad [OF inv _ promote(2)] bd by simp
    then have "hash_inv T b2" using rm [OF _ _ promote(3)] bd by simp
    then show ?thesis by (simp add: promote(4))
  next
    case (promote_capture b0 b1 b2)
    have "hash_inv T b0" using rm [OF inv _ promote_capture(2)] bd by simp
    then have "hash_inv T b1" using ad [OF _ _ promote_capture(3)] bd by simp
    then have "hash_inv T b2" using rm [OF _ _ promote_capture(4)] bd by simp
    then show ?thesis by (simp add: promote_capture(5))
  next
    case (castle kf kt rf rt b1 b2)
    note cb = castle_squares_bounds [OF castle(2)]
    have "hash_inv T b1" using mv [OF inv _ _ castle(3)] cb by simp
    then have "hash_inv T b2" using mv [OF _ _ _ castle(4)] cb by simp
    then show ?thesis by (simp add: castle(5))
  next
    case (quiet b1)
    have "hash_inv T b1" using mv [OF _ _ _ quiet(2)] inv bd by simp
    then show ?thesis by (simp add: quiet(3))
  next
    case double
    show ?thesis using mv [OF _ _ _ double(2)] inv bd by simp
  next
    case (capture b1 b2)
    have "hash_inv T b1" using rm [OF _ _ capture(2)] inv bd by simp
    then have "hash_inv T b2" using mv [OF _ _ _ capture(3)] bd by simp
    then show ?thesis by (simp add: capture(4))
  next
    case (en_passant b1)
    have "hash_inv T b1" using rm [OF _ _ en_passant(2)] inv bd by simp
    then show ?thesis using mv [OF _ _ _ en_passant(3)] bd by simp
  qed
qed

lemma undo_move_hash_inv:
  assumes ok: "hash_tables_ok T" and inv: "hash_inv T b"
    and sq: "valid_square (move_from move)" "valid_square (move_to move)"
    and ep: "move_flag move = EN_PASSANT_MOVE \<longrightarrow> m_en_passant b = move_to move"
    and un: "undo_move T b move cur_side = Inr b'"
  shows "hash_inv T b'"
proof -
  note bd = valid_square_bounds [OF sq(1)] valid_square_bounds [OF sq(2)]
  note rm = remove_piece_hash_inv [OF ok] and ad = add_piece_hash_inv [OF ok]
    and mv = move_piece_hash_inv [OF ok]
  from un show ?thesis
  proof (cases rule: undo_move_cases)
    case (promote b1)
    have "hash_inv T b1" using rm [OF inv _ promote(2)] bd by simp
    then show ?thesis using ad [OF _ _ promote(3)] bd by simp
  next
    case (promote_capture b1 b2)
    have "hash_inv T b1" using rm [OF inv _ promote_capture(2)] bd by simp
    then have "hash_inv T b2" using ad [OF _ _ promote_capture(3)] bd by simp
    then show ?thesis using ad [OF _ _ promote_capture(4)] bd by simp
  next
    case (castle kf kt rf rt b1)
    note cb = castle_squares_bounds [OF castle(2)]
    have "hash_inv T b1" using mv [OF inv _ _ castle(3)] cb by simp
    then show ?thesis using mv [OF _ _ _ castle(4)] cb by simp
  next
    case plain
    show ?thesis using mv [OF inv _ _ plain(2)] bd by simp
  next
    case (capture b1)
    have "hash_inv T b1" using mv [OF inv _ _ capture(2)] bd by simp
    then show ?thesis using ad [OF _ _ capture(3)] bd by simp
  next
    case (en_passant b1)
    have h1: "hash_inv T b1" using mv [OF inv _ _ en_passant(2)] bd by simp
    have e1: "m_en_passant b1 = move_to move"
      using ep en_passant(1) move_piece_frame(4) [OF en_passant(2)] by simp
    have "(if cur_side = WHITE then m_en_passant b1 - 10 else m_en_passant b1 + 10) < 120"
      using bd by (simp add: e1)
    from ad [OF h1 this en_passant(3)] show ?thesis .
  qed
qed

lemma make_move_hash_inv:
  assumes ok: "hash_tables_ok T" and inv: "hash_inv T b"
    and sq: "valid_square (move_from move)" "valid_square (move_to move)"
    and mk: "make_move T b move = Inr (r, b')"
  shows "hash_inv T b'"
proof -
  from make_move_fields [OF mk] obtain b1 where
    ap: "apply_move T (b\<lparr>m_history := m_history b @
            [\<lparr>h_move = move, h_castle_state = m_castle_state b, h_en_passant = m_en_passant b,
              h_fifty_move = m_fifty_move b, h_hash = m_hash b\<rparr>],
            m_half_move := m_half_move b + 1\<rparr>) move (m_next_move_colour b) = Inr b1" and
    b': "b' = switch_colours T (b1\<lparr>m_fifty_move :=
                  (if move_captured move \<or> is_pawn (moved_piece move) then 0
                   else m_fifty_move b1 + 1)\<rparr>)"
    by blast
  have "hash_inv T b1"
    by (rule apply_move_hash_inv [OF ok _ sq ap]) (simp add: inv)
  then show ?thesis by (simp add: b')
qed

text \<open>
  The moves on the undo stack have their squares on the board, and an en-passant move
  on it went to the en-passant square recorded with it.
\<close>

definition hist_ok :: "board \<Rightarrow> bool" where
  "hist_ok b \<longleftrightarrow>
     (\<forall>e \<in> set (m_history b).
        valid_square (move_from (h_move e)) \<and> valid_square (move_to (h_move e))
        \<and> (move_flag (h_move e) = EN_PASSANT_MOVE \<longrightarrow> move_to (h_move e) = h_en_passant e))"

lemma make_move_hist_ok:
  assumes "hist_ok b" and "valid_square (move_from move)" "valid_square (move_to move)"
    and "move_flag move = EN_PASSANT_MOVE \<longrightarrow> move_to move = m_en_passant b"
    and mk: "make_move T b move = Inr (r, b')"
  shows "hist_ok b'"
proof -
  from make_move_fields [OF mk] obtain b1 where
    ap: "apply_move T (b\<lparr>m_history := m_history b @
            [\<lparr>h_move = move, h_castle_state = m_castle_state b, h_en_passant = m_en_passant b,
              h_fifty_move = m_fifty_move b, h_hash = m_hash b\<rparr>],
            m_half_move := m_half_move b + 1\<rparr>) move (m_next_move_colour b) = Inr b1" and
    b': "b' = switch_colours T (b1\<lparr>m_fifty_move :=
                  (if move_captured move \<or> is_pawn (moved_piece move) then 0
                   else m_fifty_move b1 + 1)\<rparr>)"
    by blast
  have "m_history b' = m_history b @
            [\<lparr>h_move = move, h_castle_state = m_castle_state b, h_en_passant = m_en_passant b,
              h_fifty_move = m_fifty_move b, h_hash = m_hash b\<rparr>]"
    using apply_move_frame(1) [OF ap] by (simp add: b')
  with assms(1-4) show ?thesis
    by (auto simp: hist_ok_def)
qed

lemma unmake_move_inv:
  assumes ok: "hash_tables_ok T" and inv: "hash_inv T b" and hist: "hist_ok b"
    and un: "unmake_move T b = Inr b'"
  shows "hash_inv T b' \<and> hist_ok b'"
proof -
  from unmake_move_fields [OF un] have ne: "m_history b \<noteq> []"
    and h': "m_history b' = butlast (m_history b)"
    by simp_all
  let ?e = "last (m_history b)"
  from ne hist have e: "valid_square (move_from (h_move ?e))" "valid_square (move_to (h_move ?e))"
    "move_flag (h_move ?e) = EN_PASSANT_MOVE \<longrightarrow> move_to (h_move ?e) = h_en_passant ?e"
    by (auto simp: hist_ok_def)
  let ?b6 = "switch_colours T
      (set_en_passant T (set_castle_state T (b\<lparr>m_history := butlast (m_history b)\<rparr>)
          (h_castle_state ?e)) (h_en_passant ?e)
        \<lparr>m_fifty_move := h_fifty_move ?e, m_half_move := m_half_move b - 1\<rparr>)"
  from un ne have ud: "undo_move T ?b6 (h_move ?e) (m_next_move_colour ?b6) = Inr b'"
    by (auto simp: unmake_move_def Let_def ebind_eq_Inr split: if_splits)
  have i6: "hash_inv T ?b6" using inv by simp
  have "hash_inv T b'"
    by (rule undo_move_hash_inv [OF ok i6 e(1,2) _ ud]) (use e(3) in simp)
  moreover have "hist_ok b'"
    using hist h' by (auto simp: hist_ok_def dest: in_set_butlastD)
  ultimately show ?thesis ..
qed

lemma fold_blank_length:
  "length (fold (\<lambda>i ps. ps[f i := v]) is ps) = length ps"
  by (induction "is" arbitrary: ps) simp_all

lemma parse_board_frame:
  "parse_board s sq b = Inr (s', sq', b') \<Longrightarrow>
     length (m_pieces b') = length (m_pieces b) \<and> m_history b' = m_history b"
proof (induction s arbitrary: sq b)
  case Nil
  then show ?case by simp
next
  case (Cons c s)
  from Cons.prems show ?case
    by (auto simp: Let_def fold_blank_length split: if_splits dest!: Cons.IH)
qed

lemma parse_en_passant_frame:
  "parse_en_passant s b = Inr (s', b') \<Longrightarrow> \<exists>e. b' = b\<lparr>m_en_passant := e\<rparr>"
  by (auto simp: parse_en_passant_def Let_def split: list.splits if_splits)

lemma parse_fen_inv:
  assumes "parse_fen T f = Inr b"
  shows "hash_inv T b \<and> hist_ok b"
proof -
  from assms obtain s0 b0 where pb: "parse_board f A8 empty_board = Inr (s0, 29, b0)"
    by (auto simp: parse_fen_def ebind_eq_Inr split: if_splits)
  from parse_board_frame [OF pb] have b0: "length (m_pieces b0) = 120" "m_history b0 = []"
    by (simp_all add: empty_board_def)
  from assms pb obtain side_chr s1 where s1: "tl s0 = side_chr # s1"
    by (cases "tl s0") (auto simp: parse_fen_def)
  from assms pb s1 obtain c s2 where s2: "s1 = c # s2"
    by (cases s1) (auto simp: parse_fen_def split: if_splits)
  from assms pb s1 s2 obtain bx h where
    ch: "compute_hash T bx = Inr h" and b: "b = bx\<lparr>m_hash := h\<rparr>" and
    bx: "m_pieces bx = m_pieces b0" "m_history bx = m_history b0"
    by (auto simp: parse_fen_def ebind_eq_Inr Let_def split: if_splits
        dest!: parse_en_passant_frame)
  from compute_hash_Inr [OF ch] have "(\<forall>sq<120. m_pieces bx ! sq < 16)" "h = full_zobrist T bx"
    by simp_all
  then have "hash_inv T b"
    using b0 bx by (simp add: hash_inv_def b full_zobrist_def)
  moreover have "hist_ok b"
    using b0 bx by (simp add: hist_ok_def b)
  ultimately show ?thesis ..
qed

lemma pseudo_moves_inv:
  assumes "pseudo_moves b side_arg = Inr (ms, b')"
  shows "hash_inv T b' = hash_inv T b \<and> hist_ok b' = hist_ok b"
proof -
  from assms have "b' = b \<or> (\<exists>c. b' = b\<lparr>m_move_cache := c\<rparr>)"
    by (auto simp: pseudo_moves_def Let_def ebind_eq_Inr split: option.splits if_splits)
  then show ?thesis
    by (auto simp: hash_inv_def hist_ok_def full_zobrist_def)
qed


text \<open>
  The boards a program reaches through the interface: built from a FEN string, and from
  there by \<open>pseudo_moves\<close>, \<open>make_move\<close> and \<open>unmake_move\<close> calls that return. The moves
  made have their squares on the board, and an en-passant move goes to the en-passant
  target, as every generated move does.
\<close>

inductive reachable :: "hash_tables \<Rightarrow> board \<Rightarrow> bool" for T :: hash_tables where
  constructed: "parse_fen T f = Inr b \<Longrightarrow> reachable T b"
| listed: "reachable T b \<Longrightarrow> pseudo_moves b side_arg = Inr (ms, b') \<Longrightarrow> reachable T b'"
| made: "reachable T b \<Longrightarrow> valid_square (move_from m) \<Longrightarrow> valid_square (move_to m) \<Longrightarrow>
         (move_flag m = EN_PASSANT_MOVE \<longrightarrow> move_to m = m_en_passant b) \<Longrightarrow>
         make_move T b m = Inr (ok, b') \<Longrightarrow> reachable T b'"
| unmade: "reachable T b \<Longrightarrow> unmake_move T b = Inr b' \<Longrightarrow> reachable T b'"

lemma reachable_inv:
  assumes ok: "hash_tables_ok T" and r: "reachable T b"
  shows "hash_inv T b \<and> hist_ok b"
  using r
proof induction
  case (constructed f b)
  then show ?case by (rule parse_fen_inv)
next
  case (listed b side_arg ms b')
  with pseudo_moves_inv [OF listed(2), of T] show ?case by simp
next
  case (made b m ok' b')
  then show ?case
    using make_move_hash_inv [OF ok _ made(2,3,5)] make_move_hist_ok [OF _ made(2,3,4,5)]
    by simp
next
  case (unmade b b')
  then show ?case
    using unmake_move_inv [OF ok _ _ unmade(2)] by simp
qed

text \<open>
  The hash in the words of the spec: the XOR over the occupied squares of the piece
  table, of the castle-state entry, of the en-passant entry, and of \<open>side_hash\<close> when
  Black is to move.
\<close>

definition spec_zobrist :: "hash_tables \<Rightarrow> board \<Rightarrow> hash_t" where
  "spec_zobrist T b =
     xor_squares T (m_pieces b) (filter (\<lambda>sq. m_pieces b ! sq \<noteq> INVALID_PIECE) [0..<120])
       XOR castle_hash T (unat (m_castle_state b))
       XOR enpas_hash T (m_en_passant b)
       XOR (if m_next_move_colour b = BLACK then side_hash T else 0)"

lemma xor_squares_occupied:
  "hash_tables_ok T \<Longrightarrow>
     xor_squares T ps (filter (\<lambda>sq. ps ! sq \<noteq> INVALID_PIECE) sqs) = xor_squares T ps sqs"
  by (induction sqs) (simp_all add: invalid_piece_hash)

lemma spec_zobrist_eq: "hash_tables_ok T \<Longrightarrow> spec_zobrist T b = full_zobrist T b"
  by (simp add: spec_zobrist_def full_zobrist_def xor_squares_occupied BLACK_def)

lemma hash_tables_ok_example: "hash_tables_ok example_tables"
  by (simp add: hash_tables_ok_def example_tables_def valid_square_def INVALID_SQUARE_def)

text \<open>
  C2. With tables that hash an identifier that is no valid piece, and \<open>INVALID_SQUARE\<close>,
  to zero: after FEN construction and after any sequence of \<open>pseudo_moves\<close>, \<open>make_move\<close>
  and \<open>unmake_move\<close> calls that return, the stored hash is what \<open>compute_hash\<close> returns,
  and it is the XOR over the occupied squares of \<open>piece_hash[sq][piece]\<close>, of
  \<open>castle_hash[castle_state]\<close>, of \<open>enpas_hash[en_passant]\<close> and, when Black is to move,
  of \<open>side_hash\<close>.
\<close>

theorem stored_hash_is_recomputation:
  assumes "hash_tables_ok T" and "reachable T b"
  shows "compute_hash T b = Inr (m_hash b) \<and> m_hash b = spec_zobrist T b"
proof -
  from reachable_inv [OF assms] have i: "hash_inv T b" ..
  from hash_inv_compute [OF assms(1) i] i spec_zobrist_eq [OF assms(1), of b]
  show ?thesis by (simp add: hash_inv_def)
qed

text \<open>
  The theorem on the boards after e2-e4 from the starting position and after its unmake;
  the hash changes with the move and is back afterwards.
\<close>

theorem stored_hash_is_recomputation_witness:
  "hash_tables_ok example_tables
   \<and> (\<exists>b ms b1 ok b2 b3.
        parse_fen example_tables
          ''rnbqkbnr/pppppppp/8/8/8/8/PPPPPPPP/RNBQKBNR w KQkq - 0 1'' = Inr b
        \<and> pseudo_moves b None = Inr (ms, b1)
        \<and> double_move 35 55 WHITE_PAWN \<in> set ms
        \<and> make_move example_tables b1 (double_move 35 55 WHITE_PAWN) = Inr (ok, b2)
        \<and> unmake_move example_tables b2 = Inr b3
        \<and> reachable example_tables b2 \<and> reachable example_tables b3
        \<and> compute_hash example_tables b2 = Inr (m_hash b2)
        \<and> m_hash b2 = spec_zobrist example_tables b2
        \<and> m_hash b2 \<noteq> m_hash b
        \<and> compute_hash example_tables b3 = Inr (m_hash b3)
        \<and> m_hash b3 = m_hash b)"
proof -
  let ?f = "''rnbqkbnr/pppppppp/8/8/8/8/PPPPPPPP/RNBQKBNR w KQkq - 0 1''"
  let ?m = "double_move 35 55 WHITE_PAWN"
  have run: "(case parse_fen example_tables ?f of Inl e \<Rightarrow> False
              | Inr b \<Rightarrow>
                 (case pseudo_moves b None of Inl e \<Rightarrow> False
                  | Inr (ms, b1) \<Rightarrow> ?m \<in> set ms
                      \<and> (case make_move example_tables b1 ?m of Inl e \<Rightarrow> False
                         | Inr (ok, b2) \<Rightarrow> m_hash b2 \<noteq> m_hash b
                             \<and> (case unmake_move example_tables b2 of Inl e \<Rightarrow> False
                                | Inr b3 \<Rightarrow> m_hash b3 = m_hash b))))"
    by code_simp
  from run obtain b where pf: "parse_fen example_tables ?f = Inr b" and
    r1: "(case pseudo_moves b None of Inl e \<Rightarrow> False
          | Inr (ms, b1) \<Rightarrow> ?m \<in> set ms
              \<and> (case make_move example_tables b1 ?m of Inl e \<Rightarrow> False
                 | Inr (ok, b2) \<Rightarrow> m_hash b2 \<noteq> m_hash b
                     \<and> (case unmake_move example_tables b2 of Inl e \<Rightarrow> False
                        | Inr b3 \<Rightarrow> m_hash b3 = m_hash b)))"
    by (cases "parse_fen example_tables ?f") auto
  from r1 obtain ms b1 where pm: "pseudo_moves b None = Inr (ms, b1)" and mem: "?m \<in> set ms"
    and r2: "(case make_move example_tables b1 ?m of Inl e \<Rightarrow> False
              | Inr (ok, b2) \<Rightarrow> m_hash b2 \<noteq> m_hash b
                  \<and> (case unmake_move example_tables b2 of Inl e \<Rightarrow> False
                     | Inr b3 \<Rightarrow> m_hash b3 = m_hash b))"
    by (cases "pseudo_moves b None") auto
  from r2 obtain ok b2 where mk: "make_move example_tables b1 ?m = Inr (ok, b2)"
    and ne: "m_hash b2 \<noteq> m_hash b"
    and r3: "(case unmake_move example_tables b2 of Inl e \<Rightarrow> False
              | Inr b3 \<Rightarrow> m_hash b3 = m_hash b)"
    by (cases "make_move example_tables b1 ?m") auto
  from r3 obtain b3 where um: "unmake_move example_tables b2 = Inr b3"
    and eq: "m_hash b3 = m_hash b"
    by (cases "unmake_move example_tables b2") auto
  have m: "valid_square (move_from ?m)" "valid_square (move_to ?m)"
    "move_flag ?m = EN_PASSANT_MOVE \<longrightarrow> move_to ?m = m_en_passant b1"
    by (simp_all add: double_move_def valid_square_def)
  have t: "hash_tables_ok example_tables" by (rule hash_tables_ok_example)
  have "reachable example_tables b" using pf by (rule reachable.constructed)
  then have "reachable example_tables b1" using pm by (rule reachable.listed)
  then have re2: "reachable example_tables b2" using m mk by (rule reachable.made)
  then have re3: "reachable example_tables b3" using um by (rule reachable.unmade)
  from stored_hash_is_recomputation [OF t re2] stored_hash_is_recomputation [OF t re3]
    t pf pm mem mk um re2 re3 ne eq
  show ?thesis by blast
qed

section \<open>C1: make_move followed by unmake_move\<close>




text \<open>
  The part of that carried through the primitive updates: every cell holds a valid
  piece or \<open>INVALID_PIECE\<close>, and the list of a piece holds, once each, exactly the squares
  whose cell holds that piece.
\<close>

definition squares_of :: "piece_t list \<Rightarrow> piece_t \<Rightarrow> square_t set" where
  "squares_of ps piece = {sq. sq < 120 \<and> ps ! sq = piece}"


lemma finite_squares_of [simp]: "finite (squares_of ps p)"
  by (simp add: squares_of_def)








lemma find_idx_missing:
  assumes "sq \<notin> set (take n xs)" and "n \<le> length xs"
  shows "find_idx xs n sq = n"
proof -
  from assms(1) have e: "takeWhile (\<lambda>x. x \<noteq> sq) (take n xs) = take n xs"
    by (auto simp: takeWhile_eq_all_conv)
  show ?thesis unfolding find_idx_def e using assms(2) by simp
qed
















text \<open>
  The part of the stored hash that comes from the pieces: the hash with the entries of
  castle state, en-passant target and side taken out again. The setters leave it alone.
\<close>

definition piece_part :: "hash_tables \<Rightarrow> board \<Rightarrow> hash_t" where
  "piece_part T b =
     m_hash b XOR castle_hash T (unat (m_castle_state b)) XOR enpas_hash T (m_en_passant b)
       XOR (if m_next_move_colour b then side_hash T else 0)"

lemma xor_cancel3: "a XOR (x XOR y) XOR y = a XOR x" for a :: hash_t
  by (simp add: xor.assoc)

lemma piece_part_set_en_passant [simp]:
  "piece_part T (set_en_passant T b sq) = piece_part T b"
  by (simp add: piece_part_def set_en_passant_def xor_ac)

lemma piece_part_set_castle_state [simp]:
  "piece_part T (set_castle_state T b c) = piece_part T b"
  by (simp add: piece_part_def set_castle_state_def xor_ac)

lemma piece_part_update_castling [simp]:
  "piece_part T (update_castling T b sq moved) = piece_part T b"
  by (simp add: piece_part_def update_castling_def Let_def xor_ac)

lemma piece_part_switch_colours [simp]:
  "piece_part T (switch_colours T b) = piece_part T b"
  by (simp add: piece_part_def switch_colours_def xor_ac)

lemma piece_part_clocks [simp]:
  "piece_part T (b\<lparr>m_fifty_move := f\<rparr>) = piece_part T b"
  "piece_part T (b\<lparr>m_half_move := h\<rparr>) = piece_part T b"
  "piece_part T (b\<lparr>m_history := hs\<rparr>) = piece_part T b"
  "piece_part T (b\<lparr>m_move_cache := c\<rparr>) = piece_part T b"
  by (simp_all add: piece_part_def)




























section \<open>C7: what make_move records, does and returns\<close>

text \<open>
  C7. Whenever \<open>make_move(m)\<close> returns, for a move whose origin differs from the square
  it captures on: the history is the old history with exactly one new record at its end,
  holding the move and the castle state, en-passant target, fifty-move count and hash
  from before the move; the move is applied to the piece array (the piece on the origin
  stands on the destination and the origin is empty, the pawn taken en passant is gone
  from the square behind the destination, a castle moves king and rook, a promotion puts
  the promoted piece on the destination); the castle state loses the bits of a castling
  side or of the home square a king or rook leaves, the en-passant target is the square
  jumped by a double pawn push and \<open>INVALID_SQUARE\<close> otherwise, the fifty-move count is
  reset by a capture or pawn move and one higher otherwise; the side to move is switched
  and the half-move clock is one higher; and the result is true exactly when the side
  that moved is not in check on the new board (\<open>king_in_check\<close> asked with that side to
  move).
\<close>

theorem make_move_contract:
  assumes mk: "make_move T b move = Inr (ok, b')"
    and c: "move_flag move = CAPTURE_MOVE \<longrightarrow> move_from move \<noteq> move_to move"
    and e: "move_flag move = EN_PASSANT_MOVE \<longrightarrow>
              move_from move \<noteq> (if m_next_move_colour b = WHITE then move_to move - 10
                                  else move_to move + 10)"
  shows "m_history b' = m_history b @
       [\<lparr>h_move = move, h_castle_state = m_castle_state b, h_en_passant = m_en_passant b,
         h_fifty_move = m_fifty_move b, h_hash = m_hash b\<rparr>]
   \<and> m_pieces b' =
      (case move_flag move of
         QUIET_MOVE \<Rightarrow>
           (m_pieces b)[move_from move := INVALID_PIECE,
                        move_to move := m_pieces b ! move_from move]
       | DOUBLE_PAWN_MOVE \<Rightarrow>
           (m_pieces b)[move_from move := INVALID_PIECE,
                        move_to move := m_pieces b ! move_from move]
       | CAPTURE_MOVE \<Rightarrow>
           (m_pieces b)[move_from move := INVALID_PIECE,
                        move_to move := m_pieces b ! move_from move]
       | EN_PASSANT_MOVE \<Rightarrow>
           (m_pieces b)[(if m_next_move_colour b = WHITE then move_to move - 10
                         else move_to move + 10) := INVALID_PIECE,
                        move_from move := INVALID_PIECE,
                        move_to move := m_pieces b ! move_from move]
       | SHORT_CASTLE_MOVE \<Rightarrow>
           (case castle_squares (m_next_move_colour b) SHORT_CASTLE_MOVE of (kf, kt, rf, rt) \<Rightarrow>
              (m_pieces b)[kf := INVALID_PIECE, kt := m_pieces b ! kf,
                           rf := INVALID_PIECE, rt := m_pieces b ! rf])
       | LONG_CASTLE_MOVE \<Rightarrow>
           (case castle_squares (m_next_move_colour b) LONG_CASTLE_MOVE of (kf, kt, rf, rt) \<Rightarrow>
              (m_pieces b)[kf := INVALID_PIECE, kt := m_pieces b ! kf,
                           rf := INVALID_PIECE, rt := m_pieces b ! rf])
       | PROMOTE_MOVE \<Rightarrow>
           (m_pieces b)[move_to move := promoted_piece move, move_from move := INVALID_PIECE]
       | PROMOTE_CAPTURE_MOVE \<Rightarrow>
           (m_pieces b)[move_to move := promoted_piece move, move_from move := INVALID_PIECE])
   \<and> m_castle_state b' =
      (if move_promoted move then m_castle_state b
       else if move_castled move then
         m_castle_state b AND NOT (if m_next_move_colour b = WHITE then WHITE_LONG OR WHITE_SHORT
                                   else BLACK_LONG OR BLACK_SHORT)
       else if (move_flag move = QUIET_MOVE \<or> move_flag move = CAPTURE_MOVE)
               \<and> is_castle (moved_piece move)
         then strip_castling (move_from move) (m_castle_state b)
         else m_castle_state b)
   \<and> m_en_passant b' =
      (if move_flag move = DOUBLE_PAWN_MOVE
       then (if m_next_move_colour b = WHITE then move_to move - 10 else move_to move + 10)
       else INVALID_SQUARE)
   \<and> m_fifty_move b' =
      (if move_captured move \<or> is_pawn (moved_piece move) then 0 else m_fifty_move b + 1)
   \<and> m_next_move_colour b' = (\<not> m_next_move_colour b)
   \<and> m_half_move b' = m_half_move b + 1
   \<and> king_in_check (b'\<lparr>m_next_move_colour := m_next_move_colour b\<rparr>) = Inr (\<not> ok)"
proof -
  let ?b0 = "b\<lparr>m_history := m_history b @
                   [\<lparr>h_move = move, h_castle_state = m_castle_state b,
                     h_en_passant = m_en_passant b, h_fifty_move = m_fifty_move b,
                     h_hash = m_hash b\<rparr>],
                 m_half_move := m_half_move b + 1\<rparr>"
  from make_move_fields [OF mk] obtain b1 where
    ap: "apply_move T ?b0 move (m_next_move_colour b) = Inr b1" and
    b': "b' = switch_colours T (b1\<lparr>m_fifty_move :=
                  (if move_captured move \<or> is_pawn (moved_piece move) then 0
                   else m_fifty_move b1 + 1)\<rparr>)" and
    ok: "ok = (\<not> square_attacked_unguarded b'
                   (m_positions b' ! (if m_next_move_colour b = WHITE then WHITE_KING else BLACK_KING) ! 0)
                   (\<not> m_next_move_colour b))"
    by blast
  have fr: "m_history b1 = m_history ?b0" "m_next_move_colour b1 = m_next_move_colour ?b0"
    "m_half_move b1 = m_half_move ?b0" "m_fifty_move b1 = m_fifty_move ?b0"
    using apply_move_frame [OF ap] by simp_all
  have chk: "king_in_check (b'\<lparr>m_next_move_colour := m_next_move_colour b\<rparr>) = Inr (\<not> ok)"
    unfolding king_in_check_def square_attacked_Inr ok
    by (simp add: Let_def
        square_attacked_unguarded_cong [of "b'\<lparr>m_next_move_colour := m_next_move_colour b\<rparr>" b'])
  have ps: "m_pieces b' = m_pieces b1" and cs: "m_castle_state b' = m_castle_state b1"
    and ep: "m_en_passant b' = m_en_passant b1"
    by (simp_all add: b')
  have h: "m_history b' = m_history b @
       [\<lparr>h_move = move, h_castle_state = m_castle_state b, h_en_passant = m_en_passant b,
         h_fifty_move = m_fifty_move b, h_hash = m_hash b\<rparr>]"
    using fr by (simp add: b')
  have f: "m_fifty_move b' =
      (if move_captured move \<or> is_pawn (moved_piece move) then 0 else m_fifty_move b + 1)"
    using fr by (simp add: b')
  have col: "m_next_move_colour b' = (\<not> m_next_move_colour b)"
    and hm: "m_half_move b' = m_half_move b + 1"
    using fr by (simp_all add: b')
  have p: "m_pieces b' =
      (case move_flag move of
         QUIET_MOVE \<Rightarrow>
           (m_pieces b)[move_from move := INVALID_PIECE,
                        move_to move := m_pieces b ! move_from move]
       | DOUBLE_PAWN_MOVE \<Rightarrow>
           (m_pieces b)[move_from move := INVALID_PIECE,
                        move_to move := m_pieces b ! move_from move]
       | CAPTURE_MOVE \<Rightarrow>
           (m_pieces b)[move_from move := INVALID_PIECE,
                        move_to move := m_pieces b ! move_from move]
       | EN_PASSANT_MOVE \<Rightarrow>
           (m_pieces b)[(if m_next_move_colour b = WHITE then move_to move - 10
                         else move_to move + 10) := INVALID_PIECE,
                        move_from move := INVALID_PIECE,
                        move_to move := m_pieces b ! move_from move]
       | SHORT_CASTLE_MOVE \<Rightarrow>
           (case castle_squares (m_next_move_colour b) SHORT_CASTLE_MOVE of (kf, kt, rf, rt) \<Rightarrow>
              (m_pieces b)[kf := INVALID_PIECE, kt := m_pieces b ! kf,
                           rf := INVALID_PIECE, rt := m_pieces b ! rf])
       | LONG_CASTLE_MOVE \<Rightarrow>
           (case castle_squares (m_next_move_colour b) LONG_CASTLE_MOVE of (kf, kt, rf, rt) \<Rightarrow>
              (m_pieces b)[kf := INVALID_PIECE, kt := m_pieces b ! kf,
                           rf := INVALID_PIECE, rt := m_pieces b ! rf])
       | PROMOTE_MOVE \<Rightarrow>
           (m_pieces b)[move_to move := promoted_piece move, move_from move := INVALID_PIECE]
       | PROMOTE_CAPTURE_MOVE \<Rightarrow>
           (m_pieces b)[move_to move := promoted_piece move, move_from move := INVALID_PIECE])"
    using apply_move_pieces [OF ap c e] by (cases "move_flag move") (simp_all add: ps)
  have q: "m_castle_state b' =
      (if move_promoted move then m_castle_state b
       else if move_castled move then
         m_castle_state b AND NOT (if m_next_move_colour b = WHITE then WHITE_LONG OR WHITE_SHORT
                                   else BLACK_LONG OR BLACK_SHORT)
       else if (move_flag move = QUIET_MOVE \<or> move_flag move = CAPTURE_MOVE)
               \<and> is_castle (moved_piece move)
         then strip_castling (move_from move) (m_castle_state b)
         else m_castle_state b)"
    using apply_move_castle_state [OF ap] by (simp add: cs)
  have r: "m_en_passant b' =
      (if move_flag move = DOUBLE_PAWN_MOVE
       then (if m_next_move_colour b = WHITE then move_to move - 10 else move_to move + 10)
       else INVALID_SQUARE)"
    using apply_move_en_passant [OF ap] by (simp add: ep)
  from h p q r f col hm chk show ?thesis
    by blast
qed

text \<open>The theorem at the opening move e2-e4 from the starting position.\<close>

theorem make_move_contract_witness:
  "\<exists>b ok b'. parse_fen example_tables
         ''rnbqkbnr/pppppppp/8/8/8/8/PPPPPPPP/RNBQKBNR w KQkq - 0 1'' = Inr b
     \<and> make_move example_tables b (double_move 35 55 WHITE_PAWN) = Inr (ok, b')
     \<and> ok \<and> length (m_history b') = 1
     \<and> h_move (last (m_history b')) = double_move 35 55 WHITE_PAWN
     \<and> m_pieces b ! 35 = WHITE_PAWN \<and> m_pieces b ! 55 = INVALID_PIECE
     \<and> m_pieces b' ! 35 = INVALID_PIECE \<and> m_pieces b' ! 55 = WHITE_PAWN
     \<and> m_en_passant b' = 45 \<and> m_fifty_move b' = 0
     \<and> m_next_move_colour b' = BLACK \<and> m_half_move b' = 3
     \<and> king_in_check (b'\<lparr>m_next_move_colour := WHITE\<rparr>) = Inr False"
proof -
  let ?f = "''rnbqkbnr/pppppppp/8/8/8/8/PPPPPPPP/RNBQKBNR w KQkq - 0 1''"
  let ?m = "double_move 35 55 WHITE_PAWN"
  have run: "(case parse_fen example_tables ?f of Inl e \<Rightarrow> False
              | Inr b \<Rightarrow> m_history b = [] \<and> m_next_move_colour b = WHITE \<and> m_half_move b = 2
                  \<and> length (m_pieces b) = 120 \<and> m_pieces b ! 35 = WHITE_PAWN
                  \<and> m_pieces b ! 55 = INVALID_PIECE
                  \<and> (case make_move example_tables b ?m of
                        Inl e \<Rightarrow> False | Inr (ok, b') \<Rightarrow> ok))"
    by code_simp
  from run obtain b where pf: "parse_fen example_tables ?f = Inr b" and
    start: "m_history b = []" "m_next_move_colour b = WHITE" "m_half_move b = 2"
      "length (m_pieces b) = 120" "m_pieces b ! 35 = WHITE_PAWN"
      "m_pieces b ! 55 = INVALID_PIECE" and
    r: "(case make_move example_tables b ?m of Inl e \<Rightarrow> False | Inr (ok, b') \<Rightarrow> ok)"
    by (cases "parse_fen example_tables ?f") auto
  from r obtain b' where mk: "make_move example_tables b ?m = Inr (True, b')"
    by (cases "make_move example_tables b ?m") auto
  have m: "move_flag ?m = DOUBLE_PAWN_MOVE" "move_from ?m = 35" "move_to ?m = 55"
    "moved_piece ?m = WHITE_PAWN"
    by (simp_all add: double_move_def)
  have c: "move_flag ?m = CAPTURE_MOVE \<longrightarrow> move_from ?m \<noteq> move_to ?m"
    and e: "move_flag ?m = EN_PASSANT_MOVE \<longrightarrow>
              move_from ?m \<noteq> (if m_next_move_colour b = WHITE then move_to ?m - 10
                                else move_to ?m + 10)"
    by (simp_all add: m)
  note t = make_move_contract [OF mk c e]
  have h: "m_history b' = [\<lparr>h_move = ?m, h_castle_state = m_castle_state b,
      h_en_passant = m_en_passant b, h_fifty_move = m_fifty_move b, h_hash = m_hash b\<rparr>]"
    using t start(1) by simp
  have ps: "m_pieces b' = (m_pieces b)[35 := INVALID_PIECE, 55 := m_pieces b ! 35]"
    using t by (simp add: m)
  have p35: "m_pieces b' ! 35 = INVALID_PIECE" and p55: "m_pieces b' ! 55 = WHITE_PAWN"
    using start(4,5) by (simp_all add: ps)
  have ep: "m_en_passant b' = 45"
    using t start(2) by (simp add: m)
  have ip: "is_pawn (moved_piece ?m)"
    unfolding m by (simp add: is_pawn_def WHITE_PAWN_def)
  have f: "m_fifty_move b' = 0"
    using t ip by simp
  have col: "m_next_move_colour b' = BLACK" and hm: "m_half_move b' = 3"
    using t start(2,3) by (simp_all add: WHITE_def BLACK_def)
  have chk: "king_in_check (b'\<lparr>m_next_move_colour := WHITE\<rparr>) = Inr False"
    using t start(2) by simp
  have h1: "length (m_history b') = 1" "h_move (last (m_history b')) = ?m"
    by (simp_all add: h)
  from pf mk h1 start(5,6) p35 p55 ep f col hm chk show ?thesis
    by blast
qed

section \<open>C6: the en-passant field\<close>

text \<open>
  The claim as stated fails after \<open>make_move\<close>: after e2-e4 from the starting position
  the field is e3 with Black to move and no black pawn on any square next to it. It also
  fails after FEN construction where the file letter of the field is none of a to h,
  which the constructor does not check: from \<open>4k3/1P6/8/8/8/8/8/4K3 w - k6 0 1\<close> the field
  is 81, a square of rank 7, with White to move.
\<close>

theorem en_passant_field_cex:
  "(case parse_fen example_tables ''rnbqkbnr/pppppppp/8/8/8/8/PPPPPPPP/RNBQKBNR w KQkq - 0 1'' of
      Inl e \<Rightarrow> False
    | Inr b \<Rightarrow>
        (case pseudo_moves b None of
           Inl e \<Rightarrow> False
         | Inr (ms, b1) \<Rightarrow>
             double_move 35 55 WHITE_PAWN \<in> set ms
             \<and> (case make_move example_tables b1 (double_move 35 55 WHITE_PAWN) of
                   Inl e \<Rightarrow> False
                 | Inr (ok, b2) \<Rightarrow>
                     ok \<and> m_en_passant b2 = 45 \<and> m_en_passant b2 \<noteq> INVALID_SQUARE
                     \<and> m_next_move_colour b2 = BLACK
                     \<and> \<not> list_ex (\<lambda>sq. m_pieces b2 ! sq = BLACK_PAWN)
                           [34, 35, 36, 44, 46, 54, 55, 56])))
   \<and> (case parse_fen example_tables ''4k3/1P6/8/8/8/8/8/4K3 w - k6 0 1'' of
         Inl e \<Rightarrow> False
       | Inr b \<Rightarrow> m_next_move_colour b = WHITE \<and> m_en_passant b = 81
                   \<and> m_en_passant b \<noteq> INVALID_SQUARE
                   \<and> get_square_row (m_en_passant b) \<noteq> RANK_6)"
proof (rule conjI)
  show "(case parse_fen example_tables ''rnbqkbnr/pppppppp/8/8/8/8/PPPPPPPP/RNBQKBNR w KQkq - 0 1'' of
      Inl e \<Rightarrow> False
    | Inr b \<Rightarrow>
        (case pseudo_moves b None of
           Inl e \<Rightarrow> False
         | Inr (ms, b1) \<Rightarrow>
             double_move 35 55 WHITE_PAWN \<in> set ms
             \<and> (case make_move example_tables b1 (double_move 35 55 WHITE_PAWN) of
                   Inl e \<Rightarrow> False
                 | Inr (ok, b2) \<Rightarrow>
                     ok \<and> m_en_passant b2 = 45 \<and> m_en_passant b2 \<noteq> INVALID_SQUARE
                     \<and> m_next_move_colour b2 = BLACK
                     \<and> \<not> list_ex (\<lambda>sq. m_pieces b2 ! sq = BLACK_PAWN)
                           [34, 35, 36, 44, 46, 54, 55, 56])))"
    by code_simp
  show "(case parse_fen example_tables ''4k3/1P6/8/8/8/8/8/4K3 w - k6 0 1'' of
         Inl e \<Rightarrow> False
       | Inr b \<Rightarrow> m_next_move_colour b = WHITE \<and> m_en_passant b = 81
                   \<and> m_en_passant b \<noteq> INVALID_SQUARE
                   \<and> get_square_row (m_en_passant b) \<noteq> RANK_6)"
    by code_simp
qed

text \<open>
  The constructor's test for eliding the field reads the two cells beside the target on
  the target's own rank, which is not where a pawn able to capture stands: with a black
  pawn on d4 beside the white pawn on e4 and the target e3, the field is elided and no
  en-passant capture is generated.
\<close>

lemma constructor_elides_capturable_target:
  "(case parse_fen example_tables ''4k3/8/8/8/3pP3/8/8/4K3 b - e3 0 1'' of
      Inl e \<Rightarrow> False
    | Inr b \<Rightarrow> m_next_move_colour b = BLACK \<and> m_pieces b ! 54 = BLACK_PAWN
                \<and> m_pieces b ! 55 = WHITE_PAWN \<and> m_pieces b ! 45 = INVALID_PIECE
                \<and> m_en_passant b = INVALID_SQUARE
                \<and> (case pseudo_moves b None of
                      Inl e \<Rightarrow> False
                    | Inr (ms, b1) \<Rightarrow> \<not> list_ex (\<lambda>m. move_flag m = EN_PASSANT_MOVE) ms))"
  by code_simp

text \<open>
  C6 (amended). After FEN construction the field is \<open>INVALID_SQUARE\<close> when the FEN's
  en-passant field is \<open>-\<close>; when the FEN's field names a square with a file letter a to
  h, its rank digit is 6 (White to move) or 3 (Black to move) and the field is
  \<open>INVALID_SQUARE\<close> or that very square, a playing square on rank 6 or rank 3
  respectively. After \<open>make_move\<close> of a pseudo-move it is the square jumped over by a
  double pawn push, on rank 3 when Black is then to move and on rank 6 when White is,
  set with no test for an adjacent pawn and never elided, and \<open>INVALID_SQUARE\<close> after
  every other move. \<open>unmake_move\<close> restores the value stored in the undo record. That a
  pawn of the side to move can capture onto the square is no part of the invariant.
\<close>

theorem en_passant_field:
  "(parse_fen T (placement @ CHR '' '' # side_chr # sep # castle @ CHR '' '' # c0 # c1 # rest)
      = Inr b \<and> CHR '' '' \<notin> set placement \<and> CHR '' '' \<notin> set castle \<longrightarrow>
      (c0 = CHR ''-'' \<longrightarrow> m_en_passant b = INVALID_SQUARE)
      \<and> (c0 \<in> set ''abcdefgh'' \<longrightarrow>
            c1 = (if m_next_move_colour b = WHITE then CHR ''6'' else CHR ''3'')
            \<and> (m_en_passant b = INVALID_SQUARE
               \<or> valid_square (m_en_passant b)
                 \<and> get_square_row (m_en_passant b)
                     = (if m_next_move_colour b = WHITE then RANK_6 else RANK_3)
                 \<and> string_from_square (m_en_passant b) = [c0, c1])))
   \<and> (pseudo_moves b1 None = Inr (ms, b2) \<and> m_move_cache b1 (m_hash b1) = None
        \<and> m \<in> set ms \<and> make_move T b2 m = Inr (ok, b3) \<longrightarrow>
      m_en_passant b3 =
        (if move_flag m = DOUBLE_PAWN_MOVE
         then (if m_next_move_colour b1 = WHITE then move_to m - 10 else move_to m + 10)
         else INVALID_SQUARE)
      \<and> (move_flag m = DOUBLE_PAWN_MOVE \<longrightarrow>
            m_en_passant b3 \<noteq> INVALID_SQUARE
            \<and> get_square_row (m_en_passant b3)
                = (if m_next_move_colour b3 = WHITE then RANK_6 else RANK_3)))
   \<and> (unmake_move T b4 = Inr b5 \<longrightarrow>
        m_history b4 \<noteq> [] \<and> m_en_passant b5 = h_en_passant (last (m_history b4)))"
proof (intro conjI impI)
  assume a: "parse_fen T (placement @ CHR '' '' # side_chr # sep # castle @ CHR '' '' # c0 # c1 # rest)
      = Inr b \<and> CHR '' '' \<notin> set placement \<and> CHR '' '' \<notin> set castle"
  then have pf: "parse_fen T (placement @ CHR '' '' # side_chr # sep # castle @ CHR '' '' # c0 # c1 # rest)
      = Inr b" and sp: "CHR '' '' \<notin> set placement" "CHR '' '' \<notin> set castle"
    by simp_all
  from parse_fen_en_passant [OF pf sp] obtain b0 s' where
    ep: "parse_en_passant (c0 # c1 # rest) b0 = Inr (s', b0\<lparr>m_en_passant := m_en_passant b\<rparr>)"
    and col: "m_next_move_colour b0 = m_next_move_colour b"
    by blast
  note r = parse_en_passant_result [OF ep, unfolded col, simplified]
  {
    assume "c0 = CHR ''-''"
    then show "m_en_passant b = INVALID_SQUARE" by (rule r(1))
  }
  {
    assume f: "c0 \<in> set ''abcdefgh''"
    then have n: "c0 \<noteq> CHR ''-''" by auto
    let ?R = "if m_next_move_colour b = WHITE then RANK_6 else RANK_3"
    show c1: "c1 = (if m_next_move_colour b = WHITE then CHR ''6'' else CHR ''3'')"
      using r(2) [OF n] .
    have R: "?R = RANK_6 \<or> ?R = RANK_3" by simp
    have R6: "(if ?R = RANK_6 then CHR ''6'' else CHR ''3'') = c1"
      unfolding c1 by (simp add: rank_defs)
    from r(3) [OF n] named_square [OF f R, unfolded R6]
    show "m_en_passant b = INVALID_SQUARE
               \<or> valid_square (m_en_passant b)
                 \<and> get_square_row (m_en_passant b)
                     = (if m_next_move_colour b = WHITE then RANK_6 else RANK_3)
                 \<and> string_from_square (m_en_passant b) = [c0, c1]"
      by (cases "m_next_move_colour b = WHITE") auto
  }
next
  assume a: "pseudo_moves b1 None = Inr (ms, b2) \<and> m_move_cache b1 (m_hash b1) = None
        \<and> m \<in> set ms \<and> make_move T b2 m = Inr (ok, b3)"
  then have pm: "pseudo_moves b1 None = Inr (ms, b2)" "m_move_cache b1 (m_hash b1) = None"
    "m \<in> set ms" and mk: "make_move T b2 m = Inr (ok, b3)"
    by simp_all
  have b2: "b2 = b1\<lparr>m_move_cache := (m_move_cache b1)(m_hash b1 \<mapsto> ms)\<rparr>"
    by (rule pseudo_moves_miss(2) [OF pm])
  have ok: "pseudo_ok b1 (m_next_move_colour b1) m"
    using generate_moves_ok [OF pseudo_moves_miss(1) [OF pm] pm(3)] by simp
  from make_move_fields [OF mk] obtain bb where
    ap: "apply_move T (b2\<lparr>m_history := m_history b2 @
            [\<lparr>h_move = m, h_castle_state = m_castle_state b2, h_en_passant = m_en_passant b2,
              h_fifty_move = m_fifty_move b2, h_hash = m_hash b2\<rparr>],
            m_half_move := m_half_move b2 + 1\<rparr>) m (m_next_move_colour b2) = Inr bb" and
    b3: "b3 = switch_colours T (bb\<lparr>m_fifty_move :=
                  (if move_captured m \<or> is_pawn (moved_piece m) then 0
                   else m_fifty_move bb + 1)\<rparr>)"
    by blast
  have col: "m_next_move_colour b3 = (\<not> m_next_move_colour b1)"
    using apply_move_frame(2) [OF ap] by (simp add: b3 b2)
  show ep3: "m_en_passant b3 =
        (if move_flag m = DOUBLE_PAWN_MOVE
         then (if m_next_move_colour b1 = WHITE then move_to m - 10 else move_to m + 10)
         else INVALID_SQUARE)"
    using apply_move_en_passant [OF ap] by (simp add: b3 b2)
  {
    assume d: "move_flag m = DOUBLE_PAWN_MOVE"
    from double_ok_row [OF pseudo_ok_double [OF ok d]] ep3 d col
    show "m_en_passant b3 \<noteq> INVALID_SQUARE"
      and "get_square_row (m_en_passant b3)
                = (if m_next_move_colour b3 = WHITE then RANK_6 else RANK_3)"
      by (auto simp: WHITE_def)
  }
next
  assume u: "unmake_move T b4 = Inr b5"
  from unmake_move_fields [OF u]
  show "m_history b4 \<noteq> []" and "m_en_passant b5 = h_en_passant (last (m_history b4))"
    by simp_all
qed

text \<open>
  The three parts at concrete inputs: a FEN whose en-passant field is kept, the double
  push e2-e4, and its unmake.
\<close>

theorem en_passant_field_witness:
  "(\<exists>b. parse_fen example_tables ''4k3/8/8/8/8/3p4/8/4K3 b - e3 0 1'' = Inr b
        \<and> m_next_move_colour b = BLACK
        \<and> m_en_passant b = 45 \<and> valid_square (m_en_passant b)
        \<and> get_square_row (m_en_passant b) = RANK_3
        \<and> string_from_square (m_en_passant b) = ''e3'')
   \<and> (\<exists>b1 ms b2 ok b3 b5.
        parse_fen example_tables ''4k3/8/8/8/8/8/4P3/4K3 w - - 0 1'' = Inr b1
        \<and> pseudo_moves b1 None = Inr (ms, b2)
        \<and> double_move 35 55 WHITE_PAWN \<in> set ms
        \<and> make_move example_tables b2 (double_move 35 55 WHITE_PAWN) = Inr (ok, b3)
        \<and> m_en_passant b3 = 45 \<and> get_square_row (m_en_passant b3) = RANK_3
        \<and> unmake_move example_tables b3 = Inr b5
        \<and> m_en_passant b5 = INVALID_SQUARE)"
proof -
  let ?f = "''4k3/8/8/8/8/3p4/8/4K3 b - e3 0 1''"
  let ?g = "''4k3/8/8/8/8/8/4P3/4K3 w - - 0 1''"
  let ?m = "double_move 35 55 WHITE_PAWN"
  have p1: "(case parse_fen example_tables ?f of Inl e \<Rightarrow> False
             | Inr b \<Rightarrow> m_en_passant b = 45 \<and> m_next_move_colour b = BLACK)"
    by code_simp
  have p2: "(case parse_fen example_tables ?g of Inl e \<Rightarrow> False
             | Inr b1 \<Rightarrow> m_move_cache b1 (m_hash b1) = None \<and> m_next_move_colour b1 = WHITE
                 \<and> m_en_passant b1 = INVALID_SQUARE \<and> m_history b1 = []
                 \<and> (case pseudo_moves b1 None of Inl e \<Rightarrow> False
                    | Inr (ms, b2) \<Rightarrow> ?m \<in> set ms
                        \<and> (case make_move example_tables b2 ?m of Inl e \<Rightarrow> False
                           | Inr (ok, b3) \<Rightarrow>
                               (case unmake_move example_tables b3 of Inl e \<Rightarrow> False
                                | Inr b5 \<Rightarrow> True))))"
    by code_simp
  have m: "move_flag ?m = DOUBLE_PAWN_MOVE" "move_to ?m = 55"
    by (simp_all add: double_move_def)
  from p1 obtain b where pf: "parse_fen example_tables ?f = Inr b" and
    b: "m_en_passant b = 45" "m_next_move_colour b = BLACK"
    by (cases "parse_fen example_tables ?f") auto
  from p2 obtain b1 where pg: "parse_fen example_tables ?g = Inr b1" and
    s: "m_move_cache b1 (m_hash b1) = None" "m_next_move_colour b1 = WHITE"
       "m_en_passant b1 = INVALID_SQUARE" "m_history b1 = []" and
    r1: "(case pseudo_moves b1 None of Inl e \<Rightarrow> False
          | Inr (ms, b2) \<Rightarrow> ?m \<in> set ms
              \<and> (case make_move example_tables b2 ?m of Inl e \<Rightarrow> False
                 | Inr (ok, b3) \<Rightarrow>
                     (case unmake_move example_tables b3 of Inl e \<Rightarrow> False
                      | Inr b5 \<Rightarrow> True)))"
    by (cases "parse_fen example_tables ?g") auto
  from r1 obtain ms b2 where pm: "pseudo_moves b1 None = Inr (ms, b2)" and mem: "?m \<in> set ms"
    and r2: "(case make_move example_tables b2 ?m of Inl e \<Rightarrow> False
              | Inr (ok, b3) \<Rightarrow>
                  (case unmake_move example_tables b3 of Inl e \<Rightarrow> False | Inr b5 \<Rightarrow> True))"
    by (cases "pseudo_moves b1 None") auto
  from r2 obtain ok b3 where mk: "make_move example_tables b2 ?m = Inr (ok, b3)"
    and r3: "(case unmake_move example_tables b3 of Inl e \<Rightarrow> False | Inr b5 \<Rightarrow> True)"
    by (cases "make_move example_tables b2 ?m") auto
  from r3 obtain b5 where um: "unmake_move example_tables b3 = Inr b5"
    by (cases "unmake_move example_tables b3") auto
  have b2: "b2 = b1\<lparr>m_move_cache := (m_move_cache b1)(m_hash b1 \<mapsto> ms)\<rparr>"
    by (rule pseudo_moves_miss(2) [OF pm s(1) mem])
  have h: "last (m_history b3) = \<lparr>h_move = ?m, h_castle_state = m_castle_state b2,
      h_en_passant = m_en_passant b2, h_fifty_move = m_fifty_move b2, h_hash = m_hash b2\<rparr>"
    using make_move_fields [OF mk] apply_move_frame(1) by fastforce
  have e2: "m_en_passant b2 = INVALID_SQUARE"
    using s(3) by (simp add: b2)
  have pf': "parse_fen example_tables (''4k3/8/8/8/8/3p4/8/4K3'' @ CHR '' '' # CHR ''b'' # CHR '' ''
               # ''-'' @ CHR '' '' # CHR ''e'' # CHR ''3'' # '' 0 1'') = Inr b"
    using pf by simp
  from en_passant_field [where T = example_tables and placement = "''4k3/8/8/8/8/3p4/8/4K3''"
      and side_chr = "CHR ''b''" and sep = "CHR '' ''" and castle = "''-''" and ?c0.0 = "CHR ''e''"
      and ?c1.0 = "CHR ''3''" and rest = "'' 0 1''" and b = b and ?b1.0 = b1 and ms = ms
      and ?b2.0 = b2 and m = ?m and ok = ok and ?b3.0 = b3 and ?b4.0 = b3 and ?b5.0 = b5]
    pf' pf b pg pm s mem mk um m h e2
  show ?thesis
    by (auto simp: rank_defs WHITE_def BLACK_def get_square_row_def INVALID_SQUARE_def)
qed

end
